theory Spec2Isabelle
  imports Complex_Main "HOL-Library.Multiset"
begin

section \<open>JavaScript numbers\<close>

text \<open>
  A JavaScript Number is an IEEE 754 double.  The finite doubles are modelled as the real
  numbers they denote, and every arithmetic operation of the source is the exact operation
  followed by \<open>fl\<close>, rounding to the nearest double with ties to the even significand
  (53 bits, smallest normal exponent \<open>-1022\<close>).  Results of magnitude \<open>2^1024\<close> and above,
  which JavaScript turns into \<open>Infinity\<close>, lie outside the model; ratings, weights and
  millisecond timestamps stay far below.
\<close>

definition rne :: "real \<Rightarrow> int" where
  "rne y = (let f = \<lfloor>y\<rfloor>; d = y - of_int f in
            if d < 1 / 2 then f
            else if 1 / 2 < d then f + 1
            else if even f then f else f + 1)"

definition binade :: "real \<Rightarrow> int" where
  "binade x = max \<lfloor>log 2 \<bar>x\<bar>\<rfloor> (- 1022)"

definition fl :: "real \<Rightarrow> real" where
  "fl x = (if x = 0 then 0
           else of_int (rne (x * 2 powr of_int (52 - binade x))) * 2 powr of_int (binade x - 52))"

text \<open>\<open>Math.round\<close>: the nearest integer, a tie going up.\<close>

definition Math_round :: "real \<Rightarrow> int" where
  "Math_round x = \<lfloor>x + 1 / 2\<rfloor>"

text \<open>
  \<open>Math.pow\<close> returns an approximation of the power that ECMAScript leaves to the
  implementation, so the functions that call it take the implementation \<open>pw\<close> as an
  argument.  What is asked of an implementation is \<open>pow_accurate\<close>: for the base 10 and an
  exponent of magnitude up to 300 the result is within the fraction \<open>2^-48\<close> of the power,
  which is some 16 units in the last place of a double.
\<close>

definition pow_accurate :: "(real \<Rightarrow> real \<Rightarrow> real) \<Rightarrow> bool" where
  "pow_accurate pw \<longleftrightarrow> (\<forall>y. \<bar>y\<bar> \<le> 300 \<longrightarrow> \<bar>pw 10 y - 10 powr y\<bar> \<le> 10 powr y / 2 ^ 48)"

text \<open>
  The correctly rounded power is one such implementation (\<open>Math_pow_accurate\<close> below); the
  handlers are modelled with it.
\<close>

definition Math_pow :: "real \<Rightarrow> real \<Rightarrow> real" where
  "Math_pow x y = fl (x powr y)"

section \<open>Strings\<close>

text \<open>
  The characters that \<open>String.prototype.trim\<close> strips (white space and line terminators),
  as far as they are code units below 256.
\<close>

definition isWhiteSpace :: "char \<Rightarrow> bool" where
  "isWhiteSpace c = (c \<in> set [CHR 0x09, CHR 0x0A, CHR 0x0B, CHR 0x0C, CHR 0x0D, CHR 0x20, CHR 0xA0])"

definition trim :: "string \<Rightarrow> string" where
  "trim s = rev (dropWhile isWhiteSpace (rev (dropWhile isWhiteSpace s)))"

section \<open>Data model\<close>

text \<open>
  \<open>class Player\<close>.  The field \<open>id\<close> is not a field of the record: a Player object is made
  only by the join handler, which draws the id from \<open>uuidv4()\<close> and files the object under
  that key at once, and the id is never assigned again.  So the id identifies the object, and
  a reference to a Player object (in a queue entry, in a match) is modelled by the id.
  \<open>ranking\<close> only ever holds 1200 or a result of \<open>Math.round\<close>, hence an integer.
  A \<open>Date\<close> is its number of milliseconds.
\<close>

record Player =
  name :: string
  ranking :: int
  wins :: nat
  losses :: nat
  totalMatches :: nat
  queueWeight :: real
  lastMatchTime :: "int option"
  isInQueue :: bool
  isInMatch :: bool

datatype match_status = Active | Completed

text \<open>\<open>class BadmintonMatch\<close>; \<open>players\<close> is the list of references to its four Player objects.\<close>

record BadmintonMatch =
  m_players :: "string list"
  startTime :: int
  endTime :: "int option"
  result :: "(string list \<times> string list) option"
  courtNumber :: "nat option"
  status :: match_status

text \<open>An entry of \<open>badmintonQueue\<close>.\<close>

record queueItem =
  player :: string
  joinTime :: int
  weight :: real

text \<open>
  The module's variables.  \<open>player_of\<close> and \<open>match_of\<close> are the heaps of Player and
  BadmintonMatch objects, by id.  The objects \<open>players\<close> and \<open>matches\<close> are the lists of
  their keys in insertion order (the order of \<open>Object.values\<close>); \<open>activeMatches\<close> and
  \<open>completedMatches\<close> hold references to match objects.
\<close>

record state =
  player_of :: "string \<Rightarrow> Player"
  players :: "string list"
  match_of :: "string \<Rightarrow> BadmintonMatch"
  matches :: "string list"
  activeMatches :: "string list"
  completedMatches :: "string list"
  badmintonQueue :: "queueItem list"

text \<open>
  Failures, named as in the specification's error taxonomy, with the response of the source:
  \<^item> \<open>AlreadyActive\<close>: \<open>{success: false, message: 'Player already in queue or match'}\<close>
  \<^item> \<open>NotQueued\<close>: \<open>{success: false, message: 'Player not in queue'}\<close>
  \<^item> \<open>InsufficientEntries\<close>: \<open>{success: false, message: 'Need at least 4 players to create a match'}\<close>
  \<^item> \<open>NameRequired\<close>: status 400, \<open>'Player name is required'\<close>
  \<^item> \<open>OutcomeRequired\<close>: status 400, \<open>'Match ID and 2 winner IDs required'\<close>
  \<^item> \<open>SessionNotFound\<close>: status 404, \<open>'Active match not found'\<close>
  \<^item> \<open>InvalidOutcome\<close>: status 400, \<open>'Invalid winner selection'\<close>
\<close>

datatype error =
    AlreadyActive
  | NotQueued
  | InsufficientEntries
  | NameRequired
  | OutcomeRequired
  | SessionNotFound
  | InvalidOutcome

section \<open>Player\<close>

definition Player_new :: "string \<Rightarrow> Player" where
  "Player_new n =
     \<lparr>name = n, ranking = 1200, wins = 0, losses = 0, totalMatches = 0, queueWeight = 1,
      lastMatchTime = None, isInQueue = False, isInMatch = False\<rparr>"

text \<open>
  The expected score of \<open>updateRanking\<close> for a player rated \<open>r\<close>, where \<open>Math.pow\<close> is
  \<open>pw\<close>.
\<close>

definition expectedScore_with :: "(real \<Rightarrow> real \<Rightarrow> real) \<Rightarrow> real \<Rightarrow> int \<Rightarrow> real" where
  "expectedScore_with pw opponentRanking r =
     fl (1 / fl (1 + pw 10 (fl (fl (opponentRanking - of_int r) / 400))))"

text \<open>\<open>updateRanking\<close>, where \<open>Math.pow\<close> is \<open>pw\<close>.\<close>

definition updateRanking_with :: "(real \<Rightarrow> real \<Rightarrow> real) \<Rightarrow> bool \<Rightarrow> real \<Rightarrow> Player \<Rightarrow> Player" where
  "updateRanking_with pw won opponentRanking p =
     (let K = 32;
          actualScore = (if won then 1 else 0);
          p1 = p\<lparr>ranking := Math_round (fl (of_int (ranking p)
                  + fl (K * fl (actualScore - expectedScore_with pw opponentRanking (ranking p)))))\<rparr>;
          p2 = (if won then p1\<lparr>wins := wins p1 + 1\<rparr> else p1\<lparr>losses := losses p1 + 1\<rparr>)
      in p2\<lparr>totalMatches := totalMatches p2 + 1\<rparr>)"

text \<open>The two with the correctly rounded power.\<close>

definition expectedScore :: "real \<Rightarrow> int \<Rightarrow> real" where
  "expectedScore opponentRanking r = expectedScore_with Math_pow opponentRanking r"

definition updateRanking :: "bool \<Rightarrow> real \<Rightarrow> Player \<Rightarrow> Player" where
  "updateRanking won opponentRanking p = updateRanking_with Math_pow won opponentRanking p"

text \<open>
  \<open>now\<close> is the value of \<open>new Date()\<close>.  Here and below, all readings of the clock
  during one call are taken to be the same instant.
\<close>

definition calculateQueueWeight :: "int \<Rightarrow> Player \<Rightarrow> Player" where
  "calculateQueueWeight now p =
     (let weight0 = 1;
          weight1 = (case lastMatchTime p of
                       None \<Rightarrow> weight0
                     | Some t \<Rightarrow>
                         (let timeSinceLastMatch = fl (fl (of_int (now - t)) / fl (1000 * 60))
                          in fl (weight0 + min (fl (timeSinceLastMatch / 30)) 2)));
          weight2 = (if ranking p < 1000 then fl (weight1 + fl (3 / 10)) else weight1)
      in p\<lparr>queueWeight := fl (of_int (Math_round (fl (weight2 * 100))) / 100)\<rparr>)"

section \<open>BadmintonMatch\<close>

definition BadmintonMatch_new :: "string list \<Rightarrow> int \<Rightarrow> BadmintonMatch" where
  "BadmintonMatch_new ps now =
     \<lparr>m_players = ps, startTime = now, endTime = None, result = None, courtNumber = None,
      status = Active\<rparr>"

text \<open>\<open>ps.reduce((sum, p) => sum + p.ranking, 0) / 2\<close> over the heap \<open>h\<close>.\<close>

definition avgRanking :: "(string \<Rightarrow> Player) \<Rightarrow> string list \<Rightarrow> real" where
  "avgRanking h ps = fl (foldl (\<lambda>sum p. fl (sum + of_int (ranking (h p)))) 0 ps / 2)"

text \<open>The body of the two \<open>forEach\<close> loops of \<open>completeMatch\<close>.\<close>

definition finishPlayer :: "bool \<Rightarrow> real \<Rightarrow> int \<Rightarrow> Player \<Rightarrow> Player" where
  "finishPlayer won opponentRanking now p =
     (updateRanking won opponentRanking p)\<lparr>lastMatchTime := Some now, isInMatch := False\<rparr>"

text \<open>\<open>completeMatch\<close> of the match \<open>mid\<close>; \<open>winners\<close> and \<open>losers\<close> are references to players.\<close>

definition completeMatch :: "string \<Rightarrow> string list \<Rightarrow> string list \<Rightarrow> int \<Rightarrow> state \<Rightarrow> state" where
  "completeMatch mid winners losers now s =
     (let m = (match_of s mid)\<lparr>endTime := Some now, result := Some (winners, losers),
                               status := Completed\<rparr>;
          winnerAvgRanking = avgRanking (player_of s) winners;
          loserAvgRanking = avgRanking (player_of s) losers;
          h1 = foldl (\<lambda>h p. h(p := finishPlayer True loserAvgRanking now (h p)))
                 (player_of s) winners;
          h2 = foldl (\<lambda>h p. h(p := finishPlayer False winnerAvgRanking now (h p))) h1 losers
      in s\<lparr>player_of := h2, match_of := (match_of s)(mid := m)\<rparr>)"

section \<open>BadmintonQueue\<close>

text \<open>\<open>Array.prototype.findIndex\<close>: the first index whose element satisfies \<open>P\<close>, or \<open>-1\<close>.\<close>

fun findIndex :: "('a \<Rightarrow> bool) \<Rightarrow> 'a list \<Rightarrow> int" where
  "findIndex P [] = - 1"
| "findIndex P (x # xs) =
     (if P x then 0 else (let i = findIndex P xs in if i = - 1 then - 1 else i + 1))"

text \<open>\<open>splice(index, 1)\<close> on a list.\<close>

definition splice1 :: "nat \<Rightarrow> 'a list \<Rightarrow> 'a list" where
  "splice1 i xs = take i xs @ drop (Suc i) xs"

text \<open>
  \<open>Array.prototype.sort\<close>.  A comparator \<open>cmp\<close> puts \<open>a\<close> below \<open>b\<close> when \<open>cmp a b < 0\<close>,
  above when \<open>0 < cmp a b\<close>, and makes them equal when \<open>cmp a b = 0\<close>.  ECMAScript calls
  it consistent on a set of elements when being equal is reflexive, symmetric and transitive
  and being below and being above are transitive.
\<close>

definition consistent :: "('a \<Rightarrow> 'a \<Rightarrow> real) \<Rightarrow> 'a set \<Rightarrow> bool" where
  "consistent cmp S \<longleftrightarrow>
     (\<forall>a \<in> S. cmp a a = 0)
   \<and> (\<forall>a \<in> S. \<forall>b \<in> S. cmp a b = 0 \<longrightarrow> cmp b a = 0)
   \<and> (\<forall>a \<in> S. \<forall>b \<in> S. \<forall>c \<in> S. cmp a b = 0 \<and> cmp b c = 0 \<longrightarrow> cmp a c = 0)
   \<and> (\<forall>a \<in> S. \<forall>b \<in> S. \<forall>c \<in> S. cmp a b < 0 \<and> cmp b c < 0 \<longrightarrow> cmp a c < 0)
   \<and> (\<forall>a \<in> S. \<forall>b \<in> S. \<forall>c \<in> S. 0 < cmp a b \<and> 0 < cmp b c \<longrightarrow> 0 < cmp a c)"


text \<open>
  One such implementation is the stable insertion sort (\<open>sort_js_sorts\<close> below): each element
  goes in front of the first element it compares below.  The handlers are modelled with it.
\<close>

fun insert_by :: "('a \<Rightarrow> 'a \<Rightarrow> real) \<Rightarrow> 'a \<Rightarrow> 'a list \<Rightarrow> 'a list" where
  "insert_by cmp x [] = [x]"
| "insert_by cmp x (y # ys) = (if cmp x y < 0 then x # y # ys else y # insert_by cmp x ys)"

definition sort_js :: "('a \<Rightarrow> 'a \<Rightarrow> real) \<Rightarrow> 'a list \<Rightarrow> 'a list" where
  "sort_js cmp xs = foldl (\<lambda>acc x. insert_by cmp x acc) [] xs"

text \<open>The comparator of \<open>addPlayer\<close>.\<close>

definition compareItems :: "queueItem \<Rightarrow> queueItem \<Rightarrow> real" where
  "compareItems a b =
     (if \<bar>fl (weight a - weight b)\<bar> < fl (1 / 100) then fl (of_int (joinTime a) - of_int (joinTime b))
      else fl (weight b - weight a))"

text \<open>
  \<open>addPlayer\<close> of the Player object \<open>pid\<close>, where \<open>Array.prototype.sort\<close> is \<open>srt\<close>.  It
  returns \<open>queuePosition\<close>, or the failure, and the state it leaves.
\<close>

definition addPlayer_with ::
  "((queueItem \<Rightarrow> queueItem \<Rightarrow> real) \<Rightarrow> queueItem list \<Rightarrow> queueItem list)
    \<Rightarrow> string \<Rightarrow> int \<Rightarrow> state \<Rightarrow> (error + int) \<times> state" where
  "addPlayer_with srt pid now s =
     (let p = player_of s pid in
      if isInQueue p \<or> isInMatch p then (Inl AlreadyActive, s)
      else
        (let p' = calculateQueueWeight now (p\<lparr>isInQueue := True\<rparr>);
             q = srt compareItems
                   (badmintonQueue s @ [\<lparr>player = pid, joinTime = now, weight = queueWeight p'\<rparr>])
         in (Inr (findIndex (\<lambda>q. player q = pid) q + 1),
             s\<lparr>player_of := (player_of s)(pid := p'), badmintonQueue := q\<rparr>)))"

text \<open>\<open>addPlayer\<close> with the stable insertion sort.\<close>

definition addPlayer :: "string \<Rightarrow> int \<Rightarrow> state \<Rightarrow> (error + int) \<times> state" where
  "addPlayer pid now s = addPlayer_with sort_js pid now s"

definition removePlayer :: "string \<Rightarrow> state \<Rightarrow> (error + string) \<times> state" where
  "removePlayer playerId s =
     (let index = findIndex (\<lambda>q. player q = playerId) (badmintonQueue s) in
      if index = - 1 then (Inl NotQueued, s)
      else
        (let queueItem = badmintonQueue s ! nat index;
             r = player queueItem
         in (Inr r,
             s\<lparr>badmintonQueue := splice1 (nat index) (badmintonQueue s),
               player_of := (player_of s)(r := (player_of s r)\<lparr>isInQueue := False\<rparr>)\<rparr>)))"

text \<open>
  \<open>uuid\<close> is the value that \<open>uuidv4()\<close> returns in the constructor of the match; the key is
  added to \<open>matches\<close> if it is new.
\<close>

definition createMatch :: "string \<Rightarrow> int \<Rightarrow> state \<Rightarrow> (error + string) \<times> state" where
  "createMatch uuid now s =
     (if length (badmintonQueue s) < 4 then (Inl InsufficientEntries, s)
      else
        (let taken = take 4 (badmintonQueue s);
             h = foldl (\<lambda>h q. h(player q := (h (player q))\<lparr>isInQueue := False, isInMatch := True\<rparr>))
                   (player_of s) taken;
             matchPlayers = map player taken;
             m = BadmintonMatch_new matchPlayers now
         in (Inr uuid,
             s\<lparr>badmintonQueue := drop 4 (badmintonQueue s),
               player_of := h,
               match_of := (match_of s)(uuid := m),
               matches := (if uuid \<in> set (matches s) then matches s else matches s @ [uuid]),
               activeMatches := activeMatches s @ [uuid]\<rparr>)))"

section \<open>Request handlers\<close>

text \<open>
  The handlers, without the socket broadcasts.  A field of the request body is \<open>None\<close> when
  it is absent.  A handler returns its response and the state it leaves.
\<close>

text \<open>
  The first step of \<open>POST /api/badminton/join\<close>: the first player, in the order of
  \<open>Object.values(players)\<close>, whose name is \<open>n\<close>; when there is none, a new Player with that
  name, whose id \<open>uuid\<close> is what \<open>uuidv4()\<close> returns, filed under its id.
\<close>

definition findOrCreatePlayer :: "string \<Rightarrow> string \<Rightarrow> state \<Rightarrow> string \<times> state" where
  "findOrCreatePlayer n uuid s =
     (case find (\<lambda>k. name (player_of s k) = n) (players s) of
        Some k \<Rightarrow> (k, s)
      | None \<Rightarrow>
          (uuid,
           s\<lparr>player_of := (player_of s)(uuid := Player_new n),
             players := (if uuid \<in> set (players s) then players s else players s @ [uuid])\<rparr>))"

text \<open>
  \<open>POST /api/badminton/join\<close>.  The response carries the result of \<open>addPlayer\<close> and the
  id of the player.
\<close>

definition join :: "string option \<Rightarrow> string \<Rightarrow> int \<Rightarrow> state \<Rightarrow> (error + ((error + int) \<times> string)) \<times> state" where
  "join playerName uuid now s =
     (case playerName of
        None \<Rightarrow> (Inl NameRequired, s)
      | Some n \<Rightarrow>
          if n = [] \<or> trim n = [] then (Inl NameRequired, s)
          else
            (let (pid, s1) = findOrCreatePlayer (trim n) uuid s;
                 (res, s2) = addPlayer pid now s1
             in (Inr (res, pid), s2)))"

text \<open>\<open>POST /api/badminton/complete-match\<close>.\<close>

definition complete_match :: "string option \<Rightarrow> string list option \<Rightarrow> int \<Rightarrow> state \<Rightarrow> (error + unit) \<times> state" where
  "complete_match matchId winnerIds now s =
     (case (matchId, winnerIds) of
        (Some mid, Some wids) \<Rightarrow>
          if mid = [] \<or> length wids \<noteq> 2 then (Inl OutcomeRequired, s)
          else if mid \<notin> set (matches s) \<or> status (match_of s mid) \<noteq> Active
          then (Inl SessionNotFound, s)
          else
            (let winners = filter (\<lambda>p. p \<in> set wids) (m_players (match_of s mid));
                 losers = filter (\<lambda>p. p \<notin> set wids) (m_players (match_of s mid))
             in if length winners \<noteq> 2 \<or> length losers \<noteq> 2 then (Inl InvalidOutcome, s)
                else
                  (let s1 = completeMatch mid winners losers now s;
                       activeIndex = findIndex (\<lambda>m. m = mid) (activeMatches s1)
                   in (Inr (),
                       if activeIndex \<noteq> - 1
                       then s1\<lparr>activeMatches := splice1 (nat activeIndex) (activeMatches s1),
                               completedMatches := completedMatches s1 @ [mid]\<rparr>
                       else s1)))
      | _ \<Rightarrow> (Inl OutcomeRequired, s))"

text \<open>The state of the module when it is loaded; the heaps hold nothing that is referenced.\<close>

definition init :: state where
  "init = \<lparr>player_of = (\<lambda>_. Player_new []), players = [],
           match_of = (\<lambda>_. BadmintonMatch_new [] 0), matches = [],
           activeMatches = [], completedMatches = [], badmintonQueue = []\<rparr>"

section \<open>Example states\<close>

text \<open>Four players have joined, one second apart, and wait in the queue.\<close>

definition lobby :: state where
  "lobby =
     \<lparr>player_of = (\<lambda>_. Player_new [])
        (''p1'' := (Player_new ''Ann'')\<lparr>isInQueue := True\<rparr>,
         ''p2'' := (Player_new ''Bob'')\<lparr>isInQueue := True\<rparr>,
         ''p3'' := (Player_new ''Cyd'')\<lparr>isInQueue := True\<rparr>,
         ''p4'' := (Player_new ''Dee'')\<lparr>isInQueue := True\<rparr>),
      players = [''p1'', ''p2'', ''p3'', ''p4''],
      match_of = (\<lambda>_. BadmintonMatch_new [] 0), matches = [],
      activeMatches = [], completedMatches = [],
      badmintonQueue =
        [\<lparr>player = ''p1'', joinTime = 1000, weight = 1\<rparr>,
         \<lparr>player = ''p2'', joinTime = 2000, weight = 1\<rparr>,
         \<lparr>player = ''p3'', joinTime = 3000, weight = 1\<rparr>,
         \<lparr>player = ''p4'', joinTime = 4000, weight = 1\<rparr>]\<rparr>"

text \<open>The four are on court in the match \<open>m1\<close>.\<close>

definition court :: state where
  "court = snd (createMatch ''m1'' 5000 lobby)"

text \<open>
  After the match \<open>m1\<close> was resolved at time 9000 in favour of \<open>p1\<close> and \<open>p2\<close>: nobody
  queues, nobody plays.
\<close>

definition rested :: state where
  "rested =
     \<lparr>player_of = (\<lambda>_. Player_new [])
        (''p1'' := \<lparr>name = ''Ann'', ranking = 1216, wins = 1, losses = 0, totalMatches = 1,
                    queueWeight = 1, lastMatchTime = Some 9000, isInQueue = False, isInMatch = False\<rparr>,
         ''p2'' := \<lparr>name = ''Bob'', ranking = 1216, wins = 1, losses = 0, totalMatches = 1,
                    queueWeight = 1, lastMatchTime = Some 9000, isInQueue = False, isInMatch = False\<rparr>,
         ''p3'' := \<lparr>name = ''Cyd'', ranking = 1184, wins = 0, losses = 1, totalMatches = 1,
                    queueWeight = 1, lastMatchTime = Some 9000, isInQueue = False, isInMatch = False\<rparr>,
         ''p4'' := \<lparr>name = ''Dee'', ranking = 1184, wins = 0, losses = 1, totalMatches = 1,
                    queueWeight = 1, lastMatchTime = Some 9000, isInQueue = False, isInMatch = False\<rparr>),
      players = [''p1'', ''p2'', ''p3'', ''p4''],
      match_of = (\<lambda>_. BadmintonMatch_new [] 0)
        (''m1'' := \<lparr>m_players = [''p1'', ''p2'', ''p3'', ''p4''], startTime = 5000,
                    endTime = Some 9000, result = Some ([''p1'', ''p2''], [''p3'', ''p4'']),
                    courtNumber = None, status = Completed\<rparr>),
      matches = [''m1''],
      activeMatches = [], completedMatches = [''m1''], badmintonQueue = []\<rparr>"

text \<open>
  Then three of the players ask to join again: Cyd (\<open>p3\<close>) 37.2 minutes after the match, Bob
  (\<open>p2\<close>) after 37.5 minutes and Ann (\<open>p1\<close>) after 37.8 minutes.
\<close>

definition three_admits :: state where
  "three_admits =
     snd (join (Some ''Ann'') ''p7'' 2277000
       (snd (join (Some ''Bob'') ''p6'' 2259000
         (snd (join (Some ''Cyd'') ''p5'' 2241000 rested)))))"

text \<open>
  Or two of them: Dee (\<open>p4\<close>) 30 minutes after the match and Cyd (\<open>p3\<close>) after 60 minutes.
\<close>

definition waiting :: state where
  "waiting =
     snd (join (Some ''Cyd'') ''p6'' 3609000
       (snd (join (Some ''Dee'') ''p5'' 1809000 rested)))"

text \<open>The entries that these three admissions make.\<close>

definition entry_p1 :: queueItem where
  "entry_p1 = \<lparr>player = ''p1'', joinTime = 2277000, weight = 1272266894732165 / 562949953421312\<rparr>"

definition entry_p2 :: queueItem where
  "entry_p2 = \<lparr>player = ''p2'', joinTime = 2259000, weight = 9 / 4\<rparr>"

definition entry_p3 :: queueItem where
  "entry_p3 = \<lparr>player = ''p3'', joinTime = 2241000, weight = 1261007895663739 / 562949953421312\<rparr>"

section \<open>The order that the specification asks of the queue\<close>

text \<open>
  In the words of the specification: by weight, the higher weight first; two entries whose
  weights differ by less than 0.01 count as equal and go by admission time, the earlier first.
\<close>

definition inOrder :: "queueItem \<Rightarrow> queueItem \<Rightarrow> bool" where
  "inOrder a b =
     (if \<bar>weight a - weight b\<bar> < 1 / 100 then joinTime a \<le> joinTime b else weight b < weight a)"

definition queueOrdered :: "queueItem list \<Rightarrow> bool" where
  "queueOrdered q = sorted_wrt inOrder q"

text \<open>
  The order by the sorting key alone: the higher weight first, and among equal weights the
  earlier admission first.
\<close>

definition keyOrder :: "queueItem \<Rightarrow> queueItem \<Rightarrow> bool" where
  "keyOrder a b = (weight b < weight a \<or> (weight a = weight b \<and> joinTime a \<le> joinTime b))"

text \<open>
  Any two weights of the list are equal or, subtracted and compared as \<open>addPlayer\<close> does, at
  least 0.01 apart.
\<close>

definition apart :: "queueItem list \<Rightarrow> bool" where
  "apart q = list_all (\<lambda>a. list_all (\<lambda>b. weight a = weight b
                \<or> fl (1 / 100) \<le> \<bar>fl (weight a - weight b)\<bar>) q) q"

section \<open>Well-formed states\<close>

text \<open>The roster of \<open>m\<close> if \<open>m\<close> is an active match, and nobody otherwise.\<close>

definition activeRoster :: "state \<Rightarrow> string \<Rightarrow> string set" where
  "activeRoster s m =
     (if m \<in> set (matches s) \<and> status (match_of s m) = Active then set (m_players (match_of s m))
      else {})"

text \<open>
  The queue holds at most one entry for a player, the players flagged as queued are those with
  an entry, and they are registered.
\<close>

definition wf_queue :: "state \<Rightarrow> bool" where
  "wf_queue s \<longleftrightarrow>
     distinct (map player (badmintonQueue s))
   \<and> (\<forall>p. isInQueue (player_of s p) \<longleftrightarrow> p \<in> player ` set (badmintonQueue s))
   \<and> player ` set (badmintonQueue s) \<subseteq> set (players s)"

text \<open>
  An active match has four distinct players, who are registered, and no player is on the
  rosters of two active matches.
\<close>

definition wf_matches :: "state \<Rightarrow> bool" where
  "wf_matches s \<longleftrightarrow>
     (\<forall>m \<in> set (matches s). status (match_of s m) = Active \<longrightarrow>
        distinct (m_players (match_of s m)) \<and> length (m_players (match_of s m)) = 4
      \<and> set (m_players (match_of s m)) \<subseteq> set (players s))
   \<and> (\<forall>m m'. m \<noteq> m' \<longrightarrow> activeRoster s m \<inter> activeRoster s m' = {})"

text \<open>
  The players flagged as in a match are those on the roster of an active match, and nobody is
  flagged both as queued and as in a match.
\<close>

definition wf_flags :: "state \<Rightarrow> bool" where
  "wf_flags s \<longleftrightarrow>
     (\<forall>p. isInMatch (player_of s p) \<longleftrightarrow> (\<exists>m. p \<in> activeRoster s m))
   \<and> (\<forall>p. \<not> (isInQueue (player_of s p) \<and> isInMatch (player_of s p)))"

definition wf :: "state \<Rightarrow> bool" where
  "wf s \<longleftrightarrow> wf_queue s \<and> wf_matches s \<and> wf_flags s"

text \<open>
  The states that the handlers reach from the initial state, when \<open>uuidv4()\<close> never returns
  an id a second time.
\<close>

inductive reachable :: "state \<Rightarrow> bool" where
  start: "reachable init"
| joined: "reachable s \<Longrightarrow> uuid \<notin> set (players s) \<Longrightarrow> reachable (snd (join playerName uuid now s))"
| left: "reachable s \<Longrightarrow> reachable (snd (removePlayer playerId s))"
| formed: "reachable s \<Longrightarrow> uuid \<notin> set (matches s) \<Longrightarrow> reachable (snd (createMatch uuid now s))"
| resolved: "reachable s \<Longrightarrow> reachable (snd (complete_match matchId winnerIds now s))"

section \<open>Rounding to a double\<close>

lemma rne_of_int [simp]: "rne (of_int n) = n"
  by (simp add: rne_def)

lemma binade_eq:
  assumes "2 powr of_int e \<le> \<bar>x\<bar>" "\<bar>x\<bar> < 2 powr of_int (e + 1)" "- 1022 \<le> e"
  shows "binade x = e"
proof -
  have pos: "0 < \<bar>x\<bar>" using assms(1) by (smt (verit) powr_gt_zero)
  have "\<lfloor>log 2 \<bar>x\<bar>\<rfloor> = e"
    using assms(1,2) floor_log_eq_powr_iff [of "\<bar>x\<bar>" 2 e] pos by simp
  then show ?thesis using assms(3) by (simp add: binade_def)
qed

lemma fl_eval:
  assumes "2 ^ 52 \<le> \<bar>x\<bar> * 2 ^ k" "\<bar>x\<bar> * 2 ^ k < 2 ^ 53" "k \<le> 1074"
  shows "fl x = of_int (rne (x * 2 ^ k)) / 2 ^ k"
proof -
  have x0: "x \<noteq> 0" using assms(1) by auto
  have p: "(2::real) powr of_int (52 - int k) = 2 ^ 52 / 2 ^ k"
    by (simp add: powr_diff powr_realpow)
  have p1: "(2::real) powr of_int (52 - int k + 1) = 2 ^ 53 / 2 ^ k"
    by (simp add: powr_diff powr_add powr_realpow)
  have b: "binade x = 52 - int k"
  proof (rule binade_eq)
    show "2 powr of_int (52 - int k) \<le> \<bar>x\<bar>"
      unfolding p using assms(1) by (simp add: field_simps)
    show "\<bar>x\<bar> < 2 powr of_int (52 - int k + 1)"
      unfolding p1 using assms(2) by (simp add: field_simps)
    show "- 1022 \<le> 52 - int k" using assms(3) by simp
  qed
  have e1: "(2::real) powr real k = 2 ^ k"
    by (simp add: powr_realpow)
  have e2: "(2::real) powr - real k = 1 / 2 ^ k"
    by (simp add: powr_minus powr_realpow field_simps)
  show ?thesis using x0 by (simp add: fl_def b e1 e2)
qed

lemma fl_0 [simp]: "fl 0 = 0"
  by (simp add: fl_def)

lemma fl_dyadic:
  assumes "\<bar>n\<bar> < 2 ^ 53" "k \<le> 1022"
  shows "fl (of_int n / 2 ^ k) = of_int n / 2 ^ k"
proof (cases "n = 0")
  case True
  then show ?thesis by simp
next
  case False
  then have "1 \<le> nat \<bar>n\<bar>" by simp
  then obtain j where j: "2 ^ j \<le> nat \<bar>n\<bar>" "nat \<bar>n\<bar> < 2 ^ (j + 1)"
    using ex_power_ivl1 [of 2 "nat \<bar>n\<bar>"] by auto
  have jn: "(2::int) ^ j \<le> \<bar>n\<bar>" "\<bar>n\<bar> < 2 ^ (j + 1)"
    using j by (simp_all add: le_nat_iff nat_less_iff)
  have "(2::int) ^ j < 2 ^ 53" using jn(1) assms(1) by linarith
  then have "j < 53" by (rule power_less_imp_less_exp [rotated]) simp
  then have j52: "j \<le> 52" by simp
  define d where "d = 52 - j"
  have dj: "d + j = 52" using j52 by (simp add: d_def)
  let ?x = "of_int n / 2 ^ k :: real"
  have ax: "\<bar>?x\<bar> * 2 ^ (k + d) = of_int (\<bar>n\<bar> * 2 ^ d)"
    by (simp add: power_add abs_mult)
  have lo: "(2::int) ^ 52 \<le> \<bar>n\<bar> * 2 ^ d"
  proof -
    have "(2::int) ^ 52 = 2 ^ j * 2 ^ d" using dj by (simp add: power_add [symmetric] add.commute)
    also have "\<dots> \<le> \<bar>n\<bar> * 2 ^ d" using jn(1) by (simp add: mult_right_mono)
    finally show ?thesis .
  qed
  have hi: "\<bar>n\<bar> * 2 ^ d < (2::int) ^ 53"
  proof -
    have "\<bar>n\<bar> * 2 ^ d < 2 ^ (j + 1) * (2::int) ^ d" using jn(2) by (simp add: mult_strict_right_mono)
    also have "\<dots> = 2 ^ 53" using dj by (simp add: power_add [symmetric])
    finally show ?thesis .
  qed
  have c1: "2 ^ 52 \<le> \<bar>?x\<bar> * 2 ^ (k + d)"
    unfolding ax using lo by (metis of_int_le_iff of_int_numeral of_int_power)
  have c2: "\<bar>?x\<bar> * 2 ^ (k + d) < 2 ^ 53"
    unfolding ax using hi by (metis of_int_less_iff of_int_numeral of_int_power)
  have c3: "k + d \<le> 1074" using assms(2) by (simp add: d_def)
  have xi: "?x * 2 ^ (k + d) = of_int (n * 2 ^ d)" by (simp add: power_add)
  have r: "rne (?x * 2 ^ (k + d)) = n * 2 ^ d"
    unfolding xi by (rule rne_of_int)
  show ?thesis
    unfolding fl_eval [OF c1 c2 c3] r by (simp add: power_add)
qed

lemma fl_of_int: "\<bar>n\<bar> < 2 ^ 53 \<Longrightarrow> fl (of_int n) = of_int n"
  using fl_dyadic [of n 0] by simp

lemma fl_half_int: "\<bar>n\<bar> < 2 ^ 53 \<Longrightarrow> fl (of_int n / 2) = of_int n / 2"
  using fl_dyadic [of n 1] by simp

lemma fl_numeral: "numeral w < (2::int) ^ 53 \<Longrightarrow> fl (numeral w) = numeral w"
  using fl_of_int [of "numeral w"] by simp

lemma fl_neg_numeral: "numeral w < (2::int) ^ 53 \<Longrightarrow> fl (- numeral w) = - numeral w"
  using fl_of_int [of "- numeral w"] by simp

lemma fl_1 [simp]: "fl 1 = 1"
  using fl_of_int [of 1] by simp

lemma fl_half_numeral: "numeral w < (2::int) ^ 53 \<Longrightarrow> fl (numeral w / 2) = numeral w / 2"
  using fl_half_int [of "numeral w"] by simp

lemma fl_one_half [simp]: "fl (1 / 2) = 1 / 2"
  using fl_half_int [of 1] by simp

lemma fl_neg_one_half: "fl (- (1 / 2)) = - (1 / 2)"
  using fl_half_int [of "- 1"] by simp

lemma fl_three_halves: "fl (3 / 2) = 3 / 2"
  using fl_half_numeral [of "num.Bit1 num.One"] by simp

lemma fl_five_halves: "fl (5 / 2) = 5 / 2"
  using fl_half_numeral [of "num.Bit1 (num.Bit0 num.One)"] by simp

lemma fl_hundredth: "fl (1 / 100) = 5764607523034235 / 576460752303423488"
  by (subst fl_eval [where k = 59]) (simp_all add: rne_def)

lemma fl_hundredth_pos: "0 < fl (1 / 100)"
  by (simp add: fl_hundredth)

lemma rne_nonneg: "0 \<le> y \<Longrightarrow> 0 \<le> rne y"
  by (simp add: rne_def Let_def)

lemma rne_nonpos: "y \<le> 0 \<Longrightarrow> rne y \<le> 0"
proof -
  assume y: "y \<le> 0"
  show ?thesis
  proof (cases "y = 0")
    case True
    then show ?thesis by (simp add: rne_def)
  next
    case False
    then have "y < 0" using y by simp
    then have "\<lfloor>y\<rfloor> \<le> - 1" by (simp add: floor_le_iff)
    then show ?thesis by (auto simp: rne_def Let_def)
  qed
qed

lemma fl_nonneg: "0 \<le> x \<Longrightarrow> 0 \<le> fl x"
  by (simp add: fl_def rne_nonneg)

lemma fl_nonpos: "x \<le> 0 \<Longrightarrow> fl x \<le> 0"
  by (simp add: fl_def rne_nonpos mult_le_0_iff)

lemma Math_round_of_int [simp]: "Math_round (of_int n) = n"
  by (simp add: Math_round_def)

lemma Math_round_numeral [simp]: "Math_round (numeral w) = numeral w"
  using Math_round_of_int [of "numeral w"] by simp

lemma Math_pow_0 [simp]: "Math_pow 10 0 = 1"
  by (simp add: Math_pow_def)

text \<open>
  The error of rounding: half a unit in the last place, which is at most the fraction
  \<open>2^-53\<close> of a number that is not subnormal.
\<close>

lemma rne_err: "\<bar>of_int (rne y) - y\<bar> \<le> 1 / 2"
proof -
  have "of_int \<lfloor>y\<rfloor> \<le> y" "y < of_int \<lfloor>y\<rfloor> + 1" by linarith+
  then show ?thesis by (auto simp: rne_def Let_def)
qed

lemma fl_err_binade: "\<bar>fl x - x\<bar> \<le> 2 powr of_int (binade x - 53)"
proof (cases "x = 0")
  case True
  then show ?thesis by simp
next
  case False
  define s where "s = (2::real) powr of_int (binade x - 52)"
  have s: "0 < s" by (simp add: s_def)
  have "(2::real) powr of_int (52 - binade x) = 2 powr - of_int (binade x - 52)"
    by simp
  also have "\<dots> = 1 / s"
    unfolding s_def by (simp only: powr_minus inverse_eq_divide)
  finally have inv: "(2::real) powr of_int (52 - binade x) = 1 / s" .
  have "fl x = of_int (rne (x * (1 / s))) * s"
    using False by (simp only: fl_def inv s_def if_False)
  then have "fl x - x = (of_int (rne (x / s)) - x / s) * s"
    using s by (simp add: field_simps)
  then have "\<bar>fl x - x\<bar> = \<bar>of_int (rne (x / s)) - x / s\<bar> * s"
    using s by (simp add: abs_mult)
  also have "\<dots> \<le> 1 / 2 * s"
    using rne_err [of "x / s"] s by (intro mult_right_mono) simp_all
  also have "\<dots> = 2 powr of_int (binade x - 53)"
    by (simp add: s_def powr_diff)
  finally show ?thesis .
qed

lemma binade_le: "\<bar>x\<bar> \<le> 2 ^ k \<Longrightarrow> x \<noteq> 0 \<Longrightarrow> binade x \<le> int k"
proof -
  assume a: "\<bar>x\<bar> \<le> 2 ^ k" "x \<noteq> 0"
  have "log 2 \<bar>x\<bar> \<le> log 2 (2 ^ k)" using a by (intro log_mono) simp_all
  then have "log 2 \<bar>x\<bar> \<le> real k" by simp
  then have "\<lfloor>log 2 \<bar>x\<bar>\<rfloor> \<le> int k" by (simp add: floor_le_iff)
  then show ?thesis by (simp add: binade_def)
qed

lemma fl_err_abs: "\<bar>x\<bar> \<le> 2 ^ k \<Longrightarrow> \<bar>fl x - x\<bar> \<le> 2 ^ k / 2 ^ 53"
proof (cases "x = 0")
  case True
  then show ?thesis by simp
next
  case False
  assume a: "\<bar>x\<bar> \<le> 2 ^ k"
  have "binade x \<le> int k" using a False by (rule binade_le)
  then have "(2::real) powr of_int (binade x - 53) \<le> 2 powr of_int (int k - 53)"
    by (intro powr_mono) simp_all
  also have "\<dots> = 2 ^ k / 2 ^ 53"
    by (simp add: powr_diff powr_realpow)
  finally show ?thesis using fl_err_binade [of x] by linarith
qed

lemma fl_err_rel: "2 powr - 1022 \<le> \<bar>x\<bar> \<Longrightarrow> \<bar>fl x - x\<bar> \<le> \<bar>x\<bar> / 2 ^ 53"
proof -
  assume a: "2 powr - 1022 \<le> \<bar>x\<bar>"
  have pos: "0 < \<bar>x\<bar>" using a by (smt (verit) powr_gt_zero)
  have "log 2 (2 powr - 1022) \<le> log 2 \<bar>x\<bar>" using a by (intro log_mono) simp_all
  then have "- 1022 \<le> log 2 \<bar>x\<bar>" by simp
  then have "- 1022 \<le> \<lfloor>log 2 \<bar>x\<bar>\<rfloor>" by (simp add: le_floor_iff)
  then have b: "binade x = \<lfloor>log 2 \<bar>x\<bar>\<rfloor>" by (simp add: binade_def)
  have "2 powr of_int (binade x) \<le> 2 powr log 2 \<bar>x\<bar>"
    unfolding b by (intro powr_mono) simp_all
  then have le: "2 powr of_int (binade x) \<le> \<bar>x\<bar>" using pos by simp
  have "(2::real) powr of_int (binade x - 53) = 2 powr of_int (binade x) / 2 ^ 53"
    by (simp add: powr_diff)
  also have "\<dots> \<le> \<bar>x\<bar> / 2 ^ 53" using le by (simp add: divide_right_mono)
  finally show ?thesis using fl_err_binade [of x] by linarith
qed

lemma fl_err_rel1: "1 \<le> \<bar>x\<bar> \<Longrightarrow> \<bar>fl x - x\<bar> \<le> \<bar>x\<bar> / 2 ^ 53"
proof (rule fl_err_rel)
  assume "1 \<le> \<bar>x\<bar>"
  moreover have "(2::real) powr - 1022 \<le> 2 powr 0" by (intro powr_mono) simp_all
  ultimately show "2 powr - 1022 \<le> \<bar>x\<bar>" by simp
qed

text \<open>
  The error of the rating update.  The operations of \<open>updateRanking\<close> in double
  arithmetic, with a power \<open>P\<close> that is within the fraction \<open>2^-48\<close> of the power it stands
  for, give the value of the formula in exact arithmetic up to \<open>2^-28\<close>.
\<close>

lemma exp_near_1: "\<bar>w\<bar> \<le> 1 \<Longrightarrow> \<bar>exp w - 1\<bar> \<le> 2 * \<bar>w\<bar>" for w :: real
proof (cases "0 \<le> w")
  case True
  assume "\<bar>w\<bar> \<le> 1"
  then have w1: "w \<le> 1" by simp
  have "exp w \<le> 1 + w + w\<^sup>2" using True w1 by (rule exp_bound)
  moreover have "w\<^sup>2 \<le> w" using True w1 by (simp add: power2_eq_square mult_left_le_one_le)
  moreover have "1 \<le> exp w" using True by simp
  ultimately show ?thesis using True by simp
next
  case False
  have "1 + w \<le> exp w" by (rule exp_ge_add_one_self)
  moreover have "exp w \<le> 1" using False by simp
  ultimately show ?thesis using False by linarith
qed

lemma ln_10_le: "ln (10::real) \<le> 4"
proof -
  have "ln (10::real) \<le> ln 16" by (subst ln_le_cancel_iff) simp_all
  also have "\<dots> = ln ((2::real) ^ 4)" by simp
  also have "\<dots> = real 4 * ln 2" by (rule ln_realpow)
  also have "\<dots> \<le> 4 * 1" using ln_le_minus_one [of "2::real"] by simp
  finally show ?thesis by simp
qed

lemma powr_10_near:
  fixes x y :: real
  assumes "\<bar>y - x\<bar> \<le> 1 / 2 ^ 43"
  shows "\<bar>10 powr y - 10 powr x\<bar> \<le> 10 powr x / 2 ^ 40"
proof -
  define w where "w = (y - x) * ln 10"
  have l0: "0 \<le> ln (10::real)" by simp
  have "\<bar>w\<bar> = \<bar>y - x\<bar> * ln 10" using l0 by (simp add: w_def abs_mult)
  also have "\<dots> \<le> 1 / 2 ^ 43 * 4"
    using assms ln_10_le l0 by (intro mult_mono) simp_all
  finally have w: "\<bar>w\<bar> \<le> 1 / 2 ^ 41" by simp
  then have "\<bar>w\<bar> \<le> 1" by simp
  then have e: "\<bar>exp w - 1\<bar> \<le> 1 / 2 ^ 40" using exp_near_1 [of w] w by simp
  have "10 powr y = 10 powr (x + (y - x))" by simp
  also have "\<dots> = 10 powr x * 10 powr (y - x)" by (rule powr_add)
  also have "10 powr (y - x) = exp w" by (simp add: powr_def w_def)
  finally have "10 powr y - 10 powr x = 10 powr x * (exp w - 1)" by (simp add: algebra_simps)
  then have "\<bar>10 powr y - 10 powr x\<bar> = 10 powr x * \<bar>exp w - 1\<bar>" by (simp add: abs_mult)
  also have "\<dots> \<le> 10 powr x * (1 / 2 ^ 40)" using e by (intro mult_left_mono) simp_all
  finally show ?thesis by simp
qed

lemma elo_error:
  fixes r opp a :: real
  assumes r: "\<bar>r\<bar> \<le> 50000" and o: "\<bar>opp\<bar> \<le> 50000" and a: "0 \<le> a" "a \<le> 1"
    and acc: "\<bar>P - 10 powr fl (fl (opp - r) / 400)\<bar> \<le> 10 powr fl (fl (opp - r) / 400) / 2 ^ 48"
  shows "\<bar>fl (r + fl (32 * fl (a - fl (1 / fl (1 + P)))))
          - (r + 32 * (a - 1 / (1 + 10 powr ((opp - r) / 400))))\<bar> \<le> 1 / 2 ^ 28"
proof -
  define d where "d = opp - r"
  define d1 where "d1 = fl d"
  define y where "y = fl (d1 / 400)"
  define t where "t = 10 powr (d / 400)"
  define T where "T = 10 powr y"
  define S where "S = fl (1 + P)"
  define E where "E = 1 / (1 + t)"
  define E' where "E' = fl (1 / S)"
  define D where "D = fl (a - E')"
  define M where "M = fl (32 * D)"
  have dd: "\<bar>d\<bar> \<le> 2 ^ 17" using r o by (simp add: d_def abs_if split: if_splits)
  have d1: "\<bar>d1 - d\<bar> \<le> 1 / 2 ^ 36"
    using fl_err_abs [OF dd] by (simp add: d1_def)
  have "\<bar>d1\<bar> \<le> 100001" using d1 r o by (simp add: d_def abs_if split: if_splits)
  then have x1: "\<bar>d1 / 400\<bar> \<le> 2 ^ 8" by (simp add: abs_if split: if_splits)
  have y1: "\<bar>y - d1 / 400\<bar> \<le> 1 / 2 ^ 45"
    using fl_err_abs [OF x1] by (simp add: y_def)
  have yx: "\<bar>y - d / 400\<bar> \<le> 1 / 2 ^ 43" using y1 d1 by (simp add: abs_if split: if_splits)
  have tpos: "0 < t" by (simp add: t_def)
  have Tt: "\<bar>T - t\<bar> \<le> t / 2 ^ 40"
    unfolding T_def t_def by (rule powr_10_near [OF yx])
  have PT: "\<bar>P - T\<bar> \<le> T / 2 ^ 48"
    using acc by (simp add: T_def y_def d1_def d_def)
  have Pt: "\<bar>P - t\<bar> \<le> t / 2 ^ 39" using Tt PT tpos by (simp add: abs_if split: if_splits)
  have Ppos: "0 < P" using Pt tpos by (simp add: abs_if split: if_splits)
  have A1: "1 \<le> \<bar>1 + P\<bar>" using Ppos by (simp add: abs_if split: if_splits)
  have SA: "\<bar>S - (1 + P)\<bar> \<le> (1 + P) / 2 ^ 53"
    using fl_err_rel1 [OF A1] Ppos by (simp add: S_def)
  have Sa: "\<bar>S - (1 + t)\<bar> \<le> (1 + t) / 2 ^ 38" using SA Pt tpos by (simp add: abs_if split: if_splits)
  have Shalf: "1 / 2 \<le> S" using Sa tpos by (simp add: abs_if split: if_splits)
  have Spos: "0 < S" using Shalf by (simp add: abs_if split: if_splits)
  have "1 / S - E = (1 + t - S) / (S * (1 + t))"
    using Spos tpos by (simp add: E_def field_simps)
  then have "\<bar>1 / S - E\<bar> = \<bar>S - (1 + t)\<bar> / (S * (1 + t))"
    using Spos tpos by (simp add: abs_mult abs_minus_commute)
  also have "\<dots> \<le> ((1 + t) / 2 ^ 38) / (S * (1 + t))"
    using Sa Spos tpos by (intro divide_right_mono) simp_all
  also have "\<dots> = (1 / 2 ^ 38) / S" using tpos by (simp add: abs_if split: if_splits)
  also have "\<dots> \<le> (1 / 2 ^ 38) / (1 / 2)"
    using Shalf by (intro divide_left_mono) simp_all
  finally have QE: "\<bar>1 / S - E\<bar> \<le> 1 / 2 ^ 37" by (simp add: abs_if split: if_splits)
  have Epos: "0 < E" "E \<le> 1" using tpos by (simp_all add: E_def)
  have "\<bar>1 / S\<bar> \<le> 2 ^ 1" using QE Epos by (simp add: abs_if split: if_splits)
  then have "\<bar>E' - 1 / S\<bar> \<le> 2 ^ 1 / 2 ^ 53" unfolding E'_def by (rule fl_err_abs)
  then have E'E: "\<bar>E' - E\<bar> \<le> 1 / 2 ^ 36" using QE by (simp add: abs_if split: if_splits)
  have "\<bar>a - E'\<bar> \<le> 2 ^ 2" using E'E Epos a by (simp add: abs_if split: if_splits)
  then have "\<bar>D - (a - E')\<bar> \<le> 2 ^ 2 / 2 ^ 53" unfolding D_def by (rule fl_err_abs)
  then have DE: "\<bar>D - (a - E)\<bar> \<le> 1 / 2 ^ 35" using E'E by (simp add: abs_if split: if_splits)
  have "\<bar>32 * D\<bar> \<le> 2 ^ 7" using DE Epos a by (simp add: abs_if split: if_splits)
  then have "\<bar>M - 32 * D\<bar> \<le> 2 ^ 7 / 2 ^ 53" unfolding M_def by (rule fl_err_abs)
  then have ME: "\<bar>M - 32 * (a - E)\<bar> \<le> 1 / 2 ^ 29" using DE by (simp add: abs_if split: if_splits)
  have "\<bar>r + M\<bar> \<le> 2 ^ 16" using ME Epos a r by (simp add: abs_if split: if_splits)
  then have "\<bar>fl (r + M) - (r + M)\<bar> \<le> 2 ^ 16 / 2 ^ 53" by (rule fl_err_abs)
  then have "\<bar>fl (r + M) - (r + 32 * (a - E))\<bar> \<le> 1 / 2 ^ 28" using ME by (simp add: abs_if split: if_splits)
  then show ?thesis
    by (simp add: M_def D_def E'_def S_def E_def t_def d_def)
qed

text \<open>
  Rounding does not go below a double that the number is not below.
\<close>

lemma rne_ge_int: "of_int n \<le> y \<Longrightarrow> n \<le> rne y"
proof -
  assume "of_int n \<le> y"
  then have "n \<le> \<lfloor>y\<rfloor>" by (simp add: le_floor_iff)
  then show ?thesis by (simp add: rne_def Let_def)
qed

lemma fl_scaled:
  assumes "x \<noteq> 0"
  shows "fl x = of_int (rne (x / 2 powr of_int (binade x - 52))) * 2 powr of_int (binade x - 52)"
proof -
  have "(2::real) powr of_int (52 - binade x) = 2 powr - of_int (binade x - 52)"
    by simp
  also have "\<dots> = 1 / 2 powr of_int (binade x - 52)"
    by (simp only: powr_minus inverse_eq_divide)
  finally have inv: "(2::real) powr of_int (52 - binade x) = 1 / 2 powr of_int (binade x - 52)" .
  show ?thesis using assms by (simp only: fl_def inv if_False) simp
qed

lemma fl_ge:
  assumes c: "fl c = c" "0 < c" and x: "c \<le> x"
  shows "c \<le> fl x"
proof -
  have xp: "0 < x" using c(2) x by simp
  define b where "b = binade x"
  define s where "s = (2::real) powr of_int (b - 52)"
  have s: "0 < s" by (simp add: s_def)
  have flx: "fl x = of_int (rne (x / s)) * s"
    using fl_scaled [of x] xp by (simp add: s_def b_def)
  have "log 2 c \<le> log 2 x" using c(2) x by simp
  then have "\<lfloor>log 2 c\<rfloor> \<le> \<lfloor>log 2 x\<rfloor>" by (rule floor_mono)
  then have bb: "binade c \<le> b" using c(2) xp by (simp add: binade_def b_def)
  show ?thesis
  proof (cases "binade c = b")
    case True
    have "c = of_int (rne (c / s)) * s"
      using fl_scaled [of c] c by (simp add: s_def True)
    then have "c / s = of_int (rne (c / s))" using s by (simp add: field_simps)
    moreover have "c / s \<le> x / s" using x s by (simp add: divide_right_mono)
    ultimately have "of_int (rne (c / s)) \<le> x / s" by simp
    then have "rne (c / s) \<le> rne (x / s)" by (rule rne_ge_int)
    then have "of_int (rne (c / s)) * s \<le> of_int (rne (x / s)) * s"
      using s by (simp add: mult_right_mono)
    then show ?thesis using \<open>c = of_int (rne (c / s)) * s\<close> flx by simp
  next
    case False
    then have lt: "binade c < b" using bb by simp
    have "- 1022 \<le> binade c" by (simp add: binade_def)
    then have "- 1022 < b" using lt by simp
    then have bl: "b = \<lfloor>log 2 x\<rfloor>" using xp by (simp add: binade_def b_def max_def split: if_splits)
    have "2 powr of_int b \<le> 2 powr log 2 x"
      unfolding bl by (intro powr_mono) simp_all
    then have bx: "2 powr of_int b \<le> x" using xp by simp
    have "2 powr of_int b / s = 2 powr 52" by (simp add: s_def powr_diff)
    then have "of_int (2 ^ 52) = 2 powr of_int b / s" by simp
    also have "\<dots> \<le> x / s" using bx s by (simp add: divide_right_mono)
    finally have "2 ^ 52 \<le> rne (x / s)" by (rule rne_ge_int)
    then have "of_int (2 ^ 52) * s \<le> of_int (rne (x / s)) * s"
      using s by (intro mult_right_mono) simp_all
    moreover have "of_int (2 ^ 52) * s = 2 powr of_int b" by (simp add: s_def powr_diff)
    ultimately have lo: "2 powr of_int b \<le> fl x" using flx by simp
    have "log 2 c < of_int (\<lfloor>log 2 c\<rfloor> + 1)" by linarith
    also have "\<dots> \<le> of_int (binade c + 1)" using c(2) by (simp add: binade_def)
    also have "\<dots> \<le> of_int b" using lt by simp
    finally have "2 powr log 2 c < 2 powr of_int b" by (intro powr_less_mono) simp_all
    then have "c < 2 powr of_int b" using c(2) by simp
    then show ?thesis using lo by simp
  qed
qed


section \<open>Lists and heaps\<close>

lemma foldl_heap_distinct:
  "distinct xs \<Longrightarrow>
   foldl (\<lambda>h p. h(p := F (h p))) h xs r = (if r \<in> set xs then F (h r) else h r)"
  by (induction xs arbitrary: h) auto

lemma findIndex_ge: "- 1 \<le> findIndex P xs"
  by (induction xs) (auto simp: Let_def)

lemma findIndex_none: "findIndex P xs = - 1 \<longleftrightarrow> (\<forall>x \<in> set xs. \<not> P x)"
proof (induction xs)
  case Nil
  then show ?case by simp
next
  case (Cons x xs)
  have "findIndex P xs + 1 \<noteq> - 1" using findIndex_ge [of P xs] by linarith
  with Cons show ?case by (auto simp: Let_def)
qed

lemma findIndex_first:
  "findIndex P xs \<noteq> - 1 \<Longrightarrow>
   nat (findIndex P xs) < length xs \<and> P (xs ! nat (findIndex P xs))
   \<and> (\<forall>j < nat (findIndex P xs). \<not> P (xs ! j)) \<and> 0 \<le> findIndex P xs"
proof (induction xs)
  case Nil
  then show ?case by simp
next
  case (Cons x xs)
  show ?case
  proof (cases "P x")
    case True
    then show ?thesis by simp
  next
    case False
    with Cons.prems have ne: "findIndex P xs \<noteq> - 1" by (auto simp: Let_def split: if_splits)
    from Cons.IH [OF ne] have ih: "nat (findIndex P xs) < length xs" "P (xs ! nat (findIndex P xs))"
      "\<forall>j < nat (findIndex P xs). \<not> P (xs ! j)" "0 \<le> findIndex P xs" by auto
    have eq: "findIndex P (x # xs) = findIndex P xs + 1" using False ne by (simp add: Let_def)
    have n: "nat (findIndex P xs + 1) = Suc (nat (findIndex P xs))" using ih(4) by simp
    show ?thesis unfolding eq n using ih False
      by (auto simp: nth_Cons split: nat.splits)
  qed
qed

lemma findIndex_found: "x \<in> set xs \<Longrightarrow> P x \<Longrightarrow> findIndex P xs \<noteq> - 1"
  using findIndex_none [of P xs] by blast


lemma splice1_decomp:
  "i < length xs \<Longrightarrow> xs = take i xs @ xs ! i # drop (Suc i) xs \<and> splice1 i xs = take i xs @ drop (Suc i) xs"
  by (simp add: splice1_def id_take_nth_drop [symmetric])

lemma length_splice1: "i < length xs \<Longrightarrow> length (splice1 i xs) = length xs - 1"
  by (simp add: splice1_def)

lemma filter_two_of_distinct:
  assumes "distinct xs" "length ws = 2"
  shows "length (filter (\<lambda>p. p \<in> set ws) xs) = 2 \<longleftrightarrow> distinct ws \<and> set ws \<subseteq> set xs"
proof -
  obtain a b where ws: "ws = [a, b]"
    using assms(2) by (metis (no_types) One_nat_def Suc_1 length_0_conv length_Suc_conv)
  have c: "length (filter (\<lambda>p. p \<in> set ws) xs) = card (set xs \<inter> set ws)"
    using assms(1) by (metis (no_types, lifting) Collect_cong Int_def distinct_card distinct_filter set_filter)
  show ?thesis
  proof
    assume "length (filter (\<lambda>p. p \<in> set ws) xs) = 2"
    then have c2: "card (set xs \<inter> {a, b}) = 2" using c ws by simp
    have "card {a, b} \<le> 2" by (simp add: card_insert_if)
    moreover have "card (set xs \<inter> {a, b}) \<le> card {a, b}" by (rule card_mono) auto
    ultimately have ab: "card {a, b} = 2" using c2 by linarith
    then have "a \<noteq> b" by auto
    moreover have "set xs \<inter> {a, b} = {a, b}"
      by (rule card_subset_eq) (use ab c2 in auto)
    ultimately show "distinct ws \<and> set ws \<subseteq> set xs" using ws by auto
  next
    assume "distinct ws \<and> set ws \<subseteq> set xs"
    then have "a \<noteq> b" "set xs \<inter> {a, b} = {a, b}" using ws by auto
    then show "length (filter (\<lambda>p. p \<in> set ws) xs) = 2" using c ws by simp
  qed
qed

lemma filter_split_length:
  "length (filter P xs) + length (filter (\<lambda>x. \<not> P x) xs) = length xs"
  by (induction xs) auto

lemma length2E: "length xs = 2 \<Longrightarrow> \<exists>a b. xs = [a, b]"
  by (metis (no_types) One_nat_def Suc_1 length_0_conv length_Suc_conv)

lemma find_unique:
  "u \<in> set xs \<Longrightarrow> \<forall>z \<in> set xs. P z \<longleftrightarrow> z = u \<Longrightarrow> find P xs = Some u"
  by (induction xs) auto

section \<open>Sorting\<close>

lemma insert_by_mset: "mset (insert_by cmp x xs) = add_mset x (mset xs)"
  by (induction xs) auto

lemma set_insert_by: "set (insert_by cmp x ys) = insert x (set ys)"
  by (induction ys) auto

lemma sort_js_mset_aux: "mset (foldl (\<lambda>acc x. insert_by cmp x acc) acc xs) = mset acc + mset xs"
  by (induction xs arbitrary: acc) (auto simp: insert_by_mset)

lemma sort_js_mset: "mset (sort_js cmp xs) = mset xs"
  by (simp add: sort_js_def sort_js_mset_aux)

lemma length_sort_js: "length (sort_js cmp xs) = length xs"
  using sort_js_mset [of cmp xs] by (metis size_mset)

lemma set_sort_js: "set (sort_js cmp xs) = set xs"
  using sort_js_mset [of cmp xs] by (metis set_mset_mset)

lemma insert_by_sorted:
  assumes asym: "\<And>x y. x \<in> S \<Longrightarrow> y \<in> S \<Longrightarrow> cmp x y < 0 \<Longrightarrow> \<not> cmp y x < 0"
    and trans: "\<And>x y z. x \<in> S \<Longrightarrow> y \<in> S \<Longrightarrow> z \<in> S \<Longrightarrow> cmp x y < 0 \<Longrightarrow> \<not> cmp z y < 0
                  \<Longrightarrow> \<not> cmp z x < 0"
    and "x \<in> S" "set ys \<subseteq> S" "sorted_wrt (\<lambda>a b. \<not> cmp b a < 0) ys"
  shows "sorted_wrt (\<lambda>a b. \<not> cmp b a < 0) (insert_by cmp x ys)"
  using assms(3-)
proof (induction ys)
  case Nil
  then show ?case by simp
next
  case (Cons y ys)
  have yS: "y \<in> S" and ysS: "set ys \<subseteq> S" using Cons.prems(2) by simp_all
  have sy: "\<forall>z \<in> set ys. \<not> cmp z y < 0" and sys: "sorted_wrt (\<lambda>a b. \<not> cmp b a < 0) ys"
    using Cons.prems(3) by simp_all
  show ?case
  proof (cases "cmp x y < 0")
    case True
    have 1: "\<not> cmp y x < 0" using asym [OF Cons.prems(1) yS True] .
    have 2: "\<forall>z \<in> set ys. \<not> cmp z x < 0"
    proof
      fix z assume z: "z \<in> set ys"
      then have "z \<in> S" using ysS by blast
      moreover have "\<not> cmp z y < 0" using sy z by blast
      ultimately show "\<not> cmp z x < 0" using trans [OF Cons.prems(1) yS _ True] by blast
    qed
    have "insert_by cmp x (y # ys) = x # y # ys" using True by simp
    then show ?thesis using 1 2 sy sys by simp
  next
    case False
    have ih: "sorted_wrt (\<lambda>a b. \<not> cmp b a < 0) (insert_by cmp x ys)"
      using Cons.IH [OF Cons.prems(1) ysS sys] .
    have "insert_by cmp x (y # ys) = y # insert_by cmp x ys" using False by simp
    then show ?thesis using False ih sy by (simp add: set_insert_by)
  qed
qed

lemma foldl_insert_by_sorted:
  assumes asym: "\<And>x y. x \<in> S \<Longrightarrow> y \<in> S \<Longrightarrow> cmp x y < 0 \<Longrightarrow> \<not> cmp y x < 0"
    and trans: "\<And>x y z. x \<in> S \<Longrightarrow> y \<in> S \<Longrightarrow> z \<in> S \<Longrightarrow> cmp x y < 0 \<Longrightarrow> \<not> cmp z y < 0
                  \<Longrightarrow> \<not> cmp z x < 0"
    and "set ys \<subseteq> S" "set acc \<subseteq> S" "sorted_wrt (\<lambda>a b. \<not> cmp b a < 0) acc"
  shows "sorted_wrt (\<lambda>a b. \<not> cmp b a < 0) (foldl (\<lambda>acc x. insert_by cmp x acc) acc ys)"
  using assms(3-)
proof (induction ys arbitrary: acc)
  case Nil
  then show ?case by simp
next
  case (Cons y ys)
  have yS: "y \<in> S" and ysS: "set ys \<subseteq> S" using Cons.prems(1) by simp_all
  have s: "sorted_wrt (\<lambda>a b. \<not> cmp b a < 0) (insert_by cmp y acc)"
  proof (rule insert_by_sorted [where S = S])
    show "\<And>x y. x \<in> S \<Longrightarrow> y \<in> S \<Longrightarrow> cmp x y < 0 \<Longrightarrow> \<not> cmp y x < 0"
      by (rule asym)
    show "\<And>x y z. x \<in> S \<Longrightarrow> y \<in> S \<Longrightarrow> z \<in> S \<Longrightarrow> cmp x y < 0 \<Longrightarrow> \<not> cmp z y < 0
                  \<Longrightarrow> \<not> cmp z x < 0"
      by (rule trans)
    show "y \<in> S" by (rule yS)
    show "set acc \<subseteq> S" by (rule Cons.prems(2))
    show "sorted_wrt (\<lambda>a b. \<not> cmp b a < 0) acc" by (rule Cons.prems(3))
  qed
  have sub: "set (insert_by cmp y acc) \<subseteq> S"
    using yS Cons.prems(2) by (simp add: set_insert_by)
  show ?case using Cons.IH [OF ysS sub s] by simp
qed

lemma sort_js_sorted:
  assumes asym: "\<And>x y. x \<in> set xs \<Longrightarrow> y \<in> set xs \<Longrightarrow> cmp x y < 0 \<Longrightarrow> \<not> cmp y x < 0"
    and trans: "\<And>x y z. x \<in> set xs \<Longrightarrow> y \<in> set xs \<Longrightarrow> z \<in> set xs \<Longrightarrow> cmp x y < 0
                  \<Longrightarrow> \<not> cmp z y < 0 \<Longrightarrow> \<not> cmp z x < 0"
  shows "sorted_wrt (\<lambda>a b. \<not> cmp b a < 0) (sort_js cmp xs)"
  unfolding sort_js_def
proof (rule foldl_insert_by_sorted [where S = "set xs"])
  show "\<And>x y. x \<in> set xs \<Longrightarrow> y \<in> set xs \<Longrightarrow> cmp x y < 0 \<Longrightarrow> \<not> cmp y x < 0"
    by (rule asym)
  show "\<And>x y z. x \<in> set xs \<Longrightarrow> y \<in> set xs \<Longrightarrow> z \<in> set xs \<Longrightarrow> cmp x y < 0
                  \<Longrightarrow> \<not> cmp z y < 0 \<Longrightarrow> \<not> cmp z x < 0"
    by (rule trans)
qed simp_all

text \<open>What follows from the consistency of a comparator.\<close>

lemma consistent_refl: "consistent cmp S \<Longrightarrow> a \<in> S \<Longrightarrow> cmp a a = 0"
  unfolding consistent_def by blast

lemma consistent_sym: "consistent cmp S \<Longrightarrow> a \<in> S \<Longrightarrow> b \<in> S \<Longrightarrow> cmp a b = 0 \<Longrightarrow> cmp b a = 0"
  unfolding consistent_def by blast

lemma consistent_eq_trans:
  "consistent cmp S \<Longrightarrow> a \<in> S \<Longrightarrow> b \<in> S \<Longrightarrow> c \<in> S \<Longrightarrow> cmp a b = 0 \<Longrightarrow> cmp b c = 0 \<Longrightarrow> cmp a c = 0"
  unfolding consistent_def by blast

lemma consistent_less_trans:
  "consistent cmp S \<Longrightarrow> a \<in> S \<Longrightarrow> b \<in> S \<Longrightarrow> c \<in> S \<Longrightarrow> cmp a b < 0 \<Longrightarrow> cmp b c < 0 \<Longrightarrow> cmp a c < 0"
  unfolding consistent_def by blast

lemma consistent_greater_trans:
  "consistent cmp S \<Longrightarrow> a \<in> S \<Longrightarrow> b \<in> S \<Longrightarrow> c \<in> S \<Longrightarrow> 0 < cmp a b \<Longrightarrow> 0 < cmp b c \<Longrightarrow> 0 < cmp a c"
  unfolding consistent_def by blast

lemma consistent_flip:
  assumes con: "consistent cmp S" and m: "a \<in> S" "b \<in> S"
  shows "cmp a b < 0 \<longleftrightarrow> 0 < cmp b a"
proof
  assume ab: "cmp a b < 0"
  have "cmp b a \<noteq> 0" using consistent_sym [OF con m(2,1)] ab by auto
  moreover have "\<not> cmp b a < 0"
  proof
    assume "cmp b a < 0"
    then have "cmp a a < 0" using consistent_less_trans [OF con m(1,2,1) ab] by simp
    then show False using consistent_refl [OF con m(1)] by simp
  qed
  ultimately show "0 < cmp b a" by simp
next
  assume ba: "0 < cmp b a"
  have "cmp a b \<noteq> 0" using consistent_sym [OF con m(1,2)] ba by auto
  moreover have "\<not> 0 < cmp a b"
  proof
    assume "0 < cmp a b"
    then have "0 < cmp b b" using consistent_greater_trans [OF con m(2,1,2) ba] by simp
    then show False using consistent_refl [OF con m(2)] by simp
  qed
  ultimately show "cmp a b < 0" by simp
qed


lemma consistent_less_eq:
  assumes con: "consistent cmp S" and m: "a \<in> S" "b \<in> S" "c \<in> S"
    and ab: "cmp a b < 0" and bc: "cmp b c = 0"
  shows "cmp a c < 0"
proof (rule ccontr)
  assume n: "\<not> cmp a c < 0"
  have cb: "cmp c b = 0" using consistent_sym [OF con m(2,3) bc] .
  show False
  proof (cases "cmp a c = 0")
    case True
    have "cmp a b = 0" using consistent_eq_trans [OF con m(1,3,2) True cb] .
    then show False using ab by simp
  next
    case False
    then have "0 < cmp a c" using n by simp
    then have "cmp c a < 0" using consistent_flip [OF con m(3,1)] by simp
    then have "cmp c b < 0" using consistent_less_trans [OF con m(3,1,2) _ ab] by simp
    then show False using cb by simp
  qed
qed




lemma consistent_subset: "consistent cmp S \<Longrightarrow> T \<subseteq> S \<Longrightarrow> consistent cmp T"
  unfolding consistent_def by blast





section \<open>Weights, the comparator and the expected score\<close>

text \<open>
  The weight of a player who has not played is 1.0; the weight of a player who has played
  goes up by 1.0 in 30 minutes, to 2.0 after 30 minutes and to the most, 3.0, after 60.
\<close>

lemma calculateQueueWeight_fresh:
  "lastMatchTime p = None \<Longrightarrow> 1000 \<le> ranking p \<Longrightarrow> calculateQueueWeight now p = p\<lparr>queueWeight := 1\<rparr>"
  by (simp add: calculateQueueWeight_def Let_def fl_numeral)

lemma weight_after_30_minutes:
  assumes "lastMatchTime p = Some t" and "1000 \<le> ranking p"
  shows "queueWeight (calculateQueueWeight (t + 30 * 60 * 1000) p) = 2"
  using assms by (simp add: calculateQueueWeight_def Let_def fl_numeral)

lemma weight_capped:
  assumes "lastMatchTime p = Some t" and "1000 \<le> ranking p"
    and n: "t + 60 * 60 * 1000 \<le> now" "now - t < 2 ^ 53"
  shows "queueWeight (calculateQueueWeight now p) = 3"
proof -
  define ms where "ms = now - t"
  have ms: "3600000 \<le> ms" "\<bar>ms\<bar> < 2 ^ 53" using n by (simp_all add: ms_def)
  have f1: "fl (of_int ms) = of_int ms" using ms(2) by (rule fl_of_int)
  have m60: "60 \<le> fl (of_int ms / 60000)"
  proof (rule fl_ge)
    show "fl 60 = 60" by (simp add: fl_numeral)
    show "(60::real) \<le> of_int ms / 60000" using ms(1) by simp
  qed simp
  have b2: "2 \<le> fl (fl (of_int ms / 60000) / 30)"
  proof (rule fl_ge)
    show "fl 2 = 2" by (simp add: fl_numeral)
    show "2 \<le> fl (of_int ms / 60000) / 30" using m60 by simp
  qed simp
  show ?thesis
    using assms(1,2) b2
    by (simp add: calculateQueueWeight_def Let_def fl_numeral ms_def [symmetric] f1 min_def)
qed

text \<open>
  The comparator of \<open>addPlayer\<close> on entries whose weights are equal or compare at least 0.01
  apart: it is the order by weight, the higher first, and then by admission time, and it is
  consistent.
\<close>

lemma compare_same_weight:
  "weight a = weight b \<Longrightarrow> \<bar>joinTime a\<bar> < 2 ^ 52 \<Longrightarrow> \<bar>joinTime b\<bar> < 2 ^ 52
    \<Longrightarrow> compareItems a b = of_int (joinTime a - joinTime b)"
proof -
  assume w: "weight a = weight b" and a: "\<bar>joinTime a\<bar> < 2 ^ 52" and b: "\<bar>joinTime b\<bar> < 2 ^ 52"
  have d: "\<bar>joinTime a - joinTime b\<bar> < 2 ^ 53" using a b by simp
  have "fl (of_int (joinTime a) - of_int (joinTime b)) = fl (of_int (joinTime a - joinTime b))"
    by simp
  also have "\<dots> = of_int (joinTime a - joinTime b)" by (rule fl_of_int [OF d])
  finally show ?thesis using w by (simp add: compareItems_def fl_hundredth)
qed

lemma compareItems_less:
  assumes ab: "weight a = weight b \<or> fl (1 / 100) \<le> \<bar>fl (weight a - weight b)\<bar>"
    and ba: "weight b = weight a \<or> fl (1 / 100) \<le> \<bar>fl (weight b - weight a)\<bar>"
    and ta: "\<bar>joinTime a\<bar> < 2 ^ 52" and tb: "\<bar>joinTime b\<bar> < 2 ^ 52"
  shows "compareItems a b < 0
    \<longleftrightarrow> weight b < weight a \<or> (weight a = weight b \<and> joinTime a < joinTime b)"
proof (cases "weight a = weight b")
  case True
  then show ?thesis using compare_same_weight [OF True ta tb] by simp
next
  case False
  then have far: "fl (1 / 100) \<le> \<bar>fl (weight a - weight b)\<bar>"
    and far': "fl (1 / 100) \<le> \<bar>fl (weight b - weight a)\<bar>"
    using ab ba by auto
  have c: "compareItems a b = fl (weight b - weight a)"
    using far by (simp add: compareItems_def)
  have nz: "fl (weight b - weight a) \<noteq> 0" using far' fl_hundredth_pos by linarith
  show ?thesis
  proof (cases "weight b < weight a")
    case True
    then have "fl (weight b - weight a) \<le> 0" by (intro fl_nonpos) simp
    then show ?thesis using nz True c by simp
  next
    case ge: False
    then have "0 \<le> fl (weight b - weight a)" by (intro fl_nonneg) simp
    then show ?thesis using ge False c by simp
  qed
qed




lemma updateRanking_unfold:
  "updateRanking won opponentRanking p =
     (let p1 = p\<lparr>ranking := Math_round (fl (of_int (ranking p)
                  + fl (32 * fl ((if won then 1 else 0) - expectedScore opponentRanking (ranking p)))))\<rparr>;
          p2 = (if won then p1\<lparr>wins := wins p1 + 1\<rparr> else p1\<lparr>losses := losses p1 + 1\<rparr>)
      in p2\<lparr>totalMatches := totalMatches p2 + 1\<rparr>)"
  by (simp add: updateRanking_def updateRanking_with_def expectedScore_def Let_def)

lemma expectedScore_equal: "expectedScore (of_int r) r = 1 / 2"
  by (simp add: expectedScore_def expectedScore_with_def fl_numeral)

lemma expectedScore_1200 : "expectedScore 1200 1200 = 1 / 2"
  using expectedScore_equal [of 1200] by simp

section \<open>The example states\<close>

text \<open>
  The example states are those that the handlers produce from the initial state: four
  requests to join, a match made, the match resolved.
\<close>

lemma lobby_reached:
  "snd (join (Some ''Dee'') ''p4'' 4000
     (snd (join (Some ''Cyd'') ''p3'' 3000
       (snd (join (Some ''Bob'') ''p2'' 2000
         (snd (join (Some ''Ann'') ''p1'' 1000 init))))))) = lobby"
  by (simp add: join_def trim_def isWhiteSpace_def findOrCreatePlayer_def init_def addPlayer_def addPlayer_with_def
      Let_def Player_new_def calculateQueueWeight_fresh sort_js_def compare_same_weight lobby_def
      fun_upd_twist)

lemma court_facts:
  "matches court = [''m1'']" "status (match_of court ''m1'') = Active"
  "m_players (match_of court ''m1'') = [''p1'', ''p2'', ''p3'', ''p4'']"
  "activeMatches court = [''m1'']" "badmintonQueue court = []"
  by (simp_all add: court_def createMatch_def lobby_def Let_def BadmintonMatch_new_def)

lemma court_players:
  "player_of court ''p1'' = (Player_new ''Ann'')\<lparr>isInMatch := True\<rparr>"
  "player_of court ''p2'' = (Player_new ''Bob'')\<lparr>isInMatch := True\<rparr>"
  "player_of court ''p3'' = (Player_new ''Cyd'')\<lparr>isInMatch := True\<rparr>"
  "player_of court ''p4'' = (Player_new ''Dee'')\<lparr>isInMatch := True\<rparr>"
  by (simp_all add: court_def createMatch_def lobby_def Let_def Player_new_def)

lemma lobby_without_p2:
  "badmintonQueue (snd (removePlayer ''p2'' lobby))
     = [\<lparr>player = ''p1'', joinTime = 1000, weight = 1\<rparr>,
        \<lparr>player = ''p3'', joinTime = 3000, weight = 1\<rparr>,
        \<lparr>player = ''p4'', joinTime = 4000, weight = 1\<rparr>]"
  "player_of (snd (removePlayer ''p2'' lobby)) ''p2'' = Player_new ''Bob''"
  by (simp_all add: removePlayer_def lobby_def Let_def splice1_def Player_new_def)

lemma rested_reached:
  "snd (complete_match (Some ''m1'') (Some [''p1'', ''p2'']) 9000 court) = rested"
  by (simp add: complete_match_def court_def createMatch_def lobby_def completeMatch_def
      avgRanking_def finishPlayer_def updateRanking_unfold expectedScore_1200 BadmintonMatch_new_def
      Let_def Player_new_def splice1_def fl_numeral fl_neg_numeral fl_neg_one_half rested_def
      fun_upd_twist)

section \<open>Admission, withdrawal and the forming of a match\<close>

lemma addPlayer_queue:
  assumes "\<not> isInQueue (player_of s pid)" "\<not> isInMatch (player_of s pid)"
  shows "badmintonQueue (snd (addPlayer pid now s))
    = sort_js compareItems (badmintonQueue s @
        [\<lparr>player = pid, joinTime = now,
          weight = queueWeight (calculateQueueWeight now ((player_of s pid)\<lparr>isInQueue := True\<rparr>))\<rparr>])"
  using assms by (simp add: addPlayer_def addPlayer_with_def Let_def)

lemma addPlayer_others:
  "k \<noteq> pid \<Longrightarrow> player_of (snd (addPlayer pid now s)) k = player_of s k"
  by (simp add: addPlayer_def addPlayer_with_def Let_def)

lemma addPlayer_keeps:
  "players (snd (addPlayer k now s)) = players s"
  "name (player_of (snd (addPlayer k now s)) p) = name (player_of s p)"
  "ranking (player_of (snd (addPlayer k now s)) p) = ranking (player_of s p)"
  by (simp_all add: addPlayer_def addPlayer_with_def Let_def calculateQueueWeight_def)

lemma addPlayer_active:
  "isInQueue (player_of (snd (addPlayer k now s)) k) \<or> isInMatch (player_of (snd (addPlayer k now s)) k)"
  by (simp add: addPlayer_def addPlayer_with_def Let_def calculateQueueWeight_def)

lemma removePlayer_cases:
  "((\<forall>q \<in> set (badmintonQueue s). player q \<noteq> pid) \<and> removePlayer pid s = (Inl NotQueued, s))
   \<or> (\<exists>ys e zs. badmintonQueue s = ys @ e # zs \<and> player e = pid
          \<and> (\<forall>q \<in> set ys. player q \<noteq> pid)
          \<and> removePlayer pid s
              = (Inr pid, s\<lparr>badmintonQueue := ys @ zs,
                   player_of := (player_of s)(pid := (player_of s pid)\<lparr>isInQueue := False\<rparr>)\<rparr>))"
proof (cases "findIndex (\<lambda>q. player q = pid) (badmintonQueue s) = - 1")
  case True
  then show ?thesis by (simp add: removePlayer_def findIndex_none)
next
  case False
  let ?n = "nat (findIndex (\<lambda>q. player q = pid) (badmintonQueue s))"
  note fi = findIndex_first [OF False]
  have pe: "player (badmintonQueue s ! ?n) = pid" using fi by simp
  have dec: "badmintonQueue s = take ?n (badmintonQueue s) @ badmintonQueue s ! ?n # drop (Suc ?n) (badmintonQueue s)"
    using splice1_decomp fi by blast
  have before: "\<forall>q \<in> set (take ?n (badmintonQueue s)). player q \<noteq> pid"
  proof
    fix q assume "q \<in> set (take ?n (badmintonQueue s))"
    then obtain j where "j < length (take ?n (badmintonQueue s))" "q = take ?n (badmintonQueue s) ! j"
      by (metis in_set_conv_nth)
    then have "j < ?n" "q = badmintonQueue s ! j" by simp_all
    then show "player q \<noteq> pid" using fi by blast
  qed
  have "removePlayer pid s
      = (Inr pid, s\<lparr>badmintonQueue := take ?n (badmintonQueue s) @ drop (Suc ?n) (badmintonQueue s),
           player_of := (player_of s)(pid := (player_of s pid)\<lparr>isInQueue := False\<rparr>)\<rparr>)"
    using False pe by (simp add: removePlayer_def Let_def splice1_def)
  then show ?thesis using dec pe before by blast
qed

text \<open>
  C7.  For a player who is neither queued nor in a match, \<open>addPlayer\<close> followed at once by
  \<open>removePlayer\<close> succeeds, leaves the player neither queued nor in a match, and leaves the
  queue as long as it was before the admission.
\<close>

theorem admit_then_withdraw:
  assumes "\<not> isInQueue (player_of s pid)" and "\<not> isInMatch (player_of s pid)"
  shows "fst (removePlayer pid (snd (addPlayer pid now s))) = Inr pid
    \<and> length (badmintonQueue (snd (removePlayer pid (snd (addPlayer pid now s)))))
        = length (badmintonQueue s)
    \<and> \<not> isInQueue (player_of (snd (removePlayer pid (snd (addPlayer pid now s)))) pid)
    \<and> \<not> isInMatch (player_of (snd (removePlayer pid (snd (addPlayer pid now s)))) pid)"
proof -
  let ?s1 = "snd (addPlayer pid now s)"
  let ?p' = "calculateQueueWeight now ((player_of s pid)\<lparr>isInQueue := True\<rparr>)"
  let ?e = "\<lparr>player = pid, joinTime = now, weight = queueWeight ?p'\<rparr>"
  let ?P = "\<lambda>q. player q = pid"
  have q1: "badmintonQueue ?s1 = sort_js compareItems (badmintonQueue s @ [?e])"
    and h1: "player_of ?s1 = (player_of s)(pid := ?p')"
    using assms by (simp_all add: addPlayer_def addPlayer_with_def Let_def)
  have "?e \<in> set (badmintonQueue ?s1)" by (simp add: q1 set_sort_js)
  then have ne: "findIndex ?P (badmintonQueue ?s1) \<noteq> - 1" by (rule findIndex_found) simp
  note fi = findIndex_first [OF ne]
  have len1: "length (badmintonQueue ?s1) = length (badmintonQueue s) + 1"
    by (simp add: q1 length_sort_js)
  have m: "isInMatch ?p' = isInMatch (player_of s pid)"
    by (simp add: calculateQueueWeight_def Let_def)
  show ?thesis
    using ne fi len1 m assms
    by (simp add: removePlayer_def Let_def length_splice1 h1)
qed

theorem admit_then_withdraw_witness:
  "\<not> isInQueue (player_of (snd (removePlayer ''p2'' lobby)) ''p2'')
   \<and> \<not> isInMatch (player_of (snd (removePlayer ''p2'' lobby)) ''p2'')
   \<and> length (badmintonQueue (snd (removePlayer ''p2'' lobby))) = 3
   \<and> fst (removePlayer ''p2'' (snd (addPlayer ''p2'' 6000 (snd (removePlayer ''p2'' lobby))))) = Inr ''p2''
   \<and> length (badmintonQueue
         (snd (removePlayer ''p2'' (snd (addPlayer ''p2'' 6000 (snd (removePlayer ''p2'' lobby))))))) = 3
   \<and> \<not> isInQueue (player_of
         (snd (removePlayer ''p2'' (snd (addPlayer ''p2'' 6000 (snd (removePlayer ''p2'' lobby)))))) ''p2'')
   \<and> \<not> isInMatch (player_of
         (snd (removePlayer ''p2'' (snd (addPlayer ''p2'' 6000 (snd (removePlayer ''p2'' lobby)))))) ''p2'')"
proof -
  have idle: "\<not> isInQueue (player_of (snd (removePlayer ''p2'' lobby)) ''p2'')"
    "\<not> isInMatch (player_of (snd (removePlayer ''p2'' lobby)) ''p2'')"
    and len: "length (badmintonQueue (snd (removePlayer ''p2'' lobby))) = 3"
    by (simp_all add: lobby_without_p2 Player_new_def)
  show ?thesis
    using admit_then_withdraw [OF idle, of 6000] idle len by simp
qed

text \<open>
  C10.  A successful \<open>removePlayer\<close> removes the first entry of the player and nothing
  else, so that every other entry keeps its weight and its position relative to the others;
  it clears the player's \<open>isInQueue\<close> flag and changes no other field of the player, no
  other player, and no other part of the state.
\<close>

theorem removePlayer_frame:
  assumes "removePlayer pid s = (Inr r, s')"
  shows "r = pid
    \<and> (\<exists>ys e zs. badmintonQueue s = ys @ e # zs \<and> player e = pid
          \<and> (\<forall>q \<in> set ys. player q \<noteq> pid) \<and> badmintonQueue s' = ys @ zs)
    \<and> player_of s' = (player_of s)(pid := (player_of s pid)\<lparr>isInQueue := False\<rparr>)
    \<and> \<not> isInQueue (player_of s' pid)
    \<and> ranking (player_of s' pid) = ranking (player_of s pid)
    \<and> wins (player_of s' pid) = wins (player_of s pid)
    \<and> losses (player_of s' pid) = losses (player_of s pid)
    \<and> totalMatches (player_of s' pid) = totalMatches (player_of s pid)
    \<and> lastMatchTime (player_of s' pid) = lastMatchTime (player_of s pid)
    \<and> isInMatch (player_of s' pid) = isInMatch (player_of s pid)
    \<and> (\<forall>k. k \<noteq> pid \<longrightarrow> player_of s' k = player_of s k)
    \<and> players s' = players s \<and> match_of s' = match_of s \<and> matches s' = matches s
    \<and> activeMatches s' = activeMatches s \<and> completedMatches s' = completedMatches s"
proof -
  from removePlayer_cases [of s pid] assms obtain ys e zs where
    d: "badmintonQueue s = ys @ e # zs" "player e = pid" "\<forall>q \<in> set ys. player q \<noteq> pid"
    and r: "removePlayer pid s
              = (Inr pid, s\<lparr>badmintonQueue := ys @ zs,
                   player_of := (player_of s)(pid := (player_of s pid)\<lparr>isInQueue := False\<rparr>)\<rparr>)"
    by auto
  have r': "r = pid"
    and s': "s' = s\<lparr>badmintonQueue := ys @ zs,
                   player_of := (player_of s)(pid := (player_of s pid)\<lparr>isInQueue := False\<rparr>)\<rparr>"
    using r assms by simp_all
  have ex: "\<exists>ys e zs. badmintonQueue s = ys @ e # zs \<and> player e = pid
          \<and> (\<forall>q \<in> set ys. player q \<noteq> pid) \<and> badmintonQueue s' = ys @ zs"
    using d by (auto simp: s')
  show ?thesis using r' ex by (simp add: s')
qed

theorem removePlayer_frame_witness:
  "removePlayer ''p2'' lobby
     = (Inr ''p2'',
        lobby\<lparr>badmintonQueue :=
                [\<lparr>player = ''p1'', joinTime = 1000, weight = 1\<rparr>,
                 \<lparr>player = ''p3'', joinTime = 3000, weight = 1\<rparr>,
                 \<lparr>player = ''p4'', joinTime = 4000, weight = 1\<rparr>],
              player_of := (player_of lobby)(''p2'' := (player_of lobby ''p2'')\<lparr>isInQueue := False\<rparr>)\<rparr>)
   \<and> ranking (player_of (snd (removePlayer ''p2'' lobby)) ''p2'') = 1200
   \<and> players (snd (removePlayer ''p2'' lobby)) = players lobby"
proof -
  have r: "removePlayer ''p2'' lobby
     = (Inr ''p2'',
        lobby\<lparr>badmintonQueue :=
                [\<lparr>player = ''p1'', joinTime = 1000, weight = 1\<rparr>,
                 \<lparr>player = ''p3'', joinTime = 3000, weight = 1\<rparr>,
                 \<lparr>player = ''p4'', joinTime = 4000, weight = 1\<rparr>],
              player_of := (player_of lobby)(''p2'' := (player_of lobby ''p2'')\<lparr>isInQueue := False\<rparr>)\<rparr>)"
    by (simp add: removePlayer_def lobby_def Let_def splice1_def)
  show ?thesis
    using removePlayer_frame [OF r] r by (simp add: lobby_def Player_new_def)
qed

text \<open>
  C5.  \<open>createMatch\<close> fails with \<open>InsufficientEntries\<close> exactly when the queue holds fewer
  than four entries, and then leaves the state as it was.  Otherwise it succeeds, removes the
  first four entries and no others (the rest of the queue follows in its old order), makes
  the players of those entries, in rank order, the roster of the new, active match, and marks
  each of them as in a match and no longer queued.
\<close>

theorem createMatch_spec:
  "(fst (createMatch uuid now s) = Inl InsufficientEntries \<longleftrightarrow> length (badmintonQueue s) < 4)
   \<and> (length (badmintonQueue s) < 4 \<longrightarrow> snd (createMatch uuid now s) = s)
   \<and> (4 \<le> length (badmintonQueue s) \<longrightarrow>
        fst (createMatch uuid now s) = Inr uuid
      \<and> badmintonQueue (snd (createMatch uuid now s)) = drop 4 (badmintonQueue s)
      \<and> length (badmintonQueue (snd (createMatch uuid now s))) + 4 = length (badmintonQueue s)
      \<and> badmintonQueue s
          = take 4 (badmintonQueue s) @ badmintonQueue (snd (createMatch uuid now s))
      \<and> m_players (match_of (snd (createMatch uuid now s)) uuid)
          = map player (take 4 (badmintonQueue s))
      \<and> status (match_of (snd (createMatch uuid now s)) uuid) = Active
      \<and> activeMatches (snd (createMatch uuid now s)) = activeMatches s @ [uuid]
      \<and> (\<forall>q \<in> set (take 4 (badmintonQueue s)).
            \<not> isInQueue (player_of (snd (createMatch uuid now s)) (player q))
          \<and> isInMatch (player_of (snd (createMatch uuid now s)) (player q))))"
proof -
  have h: "foldl (\<lambda>h q. h(player q := (h (player q))\<lparr>isInQueue := False, isInMatch := True\<rparr>)) h0 qs r
      = (if r \<in> player ` set qs then (h0 r)\<lparr>isInQueue := False, isInMatch := True\<rparr> else h0 r)"
    for h0 :: "string \<Rightarrow> Player" and qs :: "queueItem list" and r
    by (induction qs arbitrary: h0) auto
  show ?thesis
    by (simp add: createMatch_def Let_def BadmintonMatch_new_def h)
qed

theorem createMatch_spec_witness:
  "(length (badmintonQueue init) < 4
      \<and> fst (createMatch ''m1'' 5000 init) = Inl InsufficientEntries
      \<and> snd (createMatch ''m1'' 5000 init) = init)
   \<and> (4 \<le> length (badmintonQueue lobby)
      \<and> fst (createMatch ''m1'' 5000 lobby) = Inr ''m1''
      \<and> badmintonQueue (snd (createMatch ''m1'' 5000 lobby)) = []
      \<and> m_players (match_of (snd (createMatch ''m1'' 5000 lobby)) ''m1'')
          = [''p1'', ''p2'', ''p3'', ''p4'']
      \<and> \<not> isInQueue (player_of (snd (createMatch ''m1'' 5000 lobby)) ''p3'')
      \<and> isInMatch (player_of (snd (createMatch ''m1'' 5000 lobby)) ''p3''))"
  using createMatch_spec [of "''m1''" 5000 init] createMatch_spec [of "''m1''" 5000 lobby]
  by (simp add: init_def lobby_def)

section \<open>Joining by name\<close>

lemma trim_Nil [simp]: "trim [] = []"
  by (simp add: trim_def)

lemma trim_decomp:
  "\<exists>a b. n = a @ trim n @ b \<and> list_all isWhiteSpace a \<and> list_all isWhiteSpace b"
proof -
  let ?a = "takeWhile isWhiteSpace n"
  let ?m = "dropWhile isWhiteSpace n"
  let ?b = "rev (takeWhile isWhiteSpace (rev ?m))"
  have "rev ?m = takeWhile isWhiteSpace (rev ?m) @ dropWhile isWhiteSpace (rev ?m)" by simp
  then have "?m = rev (dropWhile isWhiteSpace (rev ?m)) @ ?b"
    by (metis rev_append rev_rev_ident)
  then have m: "?m = trim n @ ?b" by (simp add: trim_def)
  have "n = ?a @ ?m" by simp
  then have "n = ?a @ trim n @ ?b" using m by simp
  moreover have "list_all isWhiteSpace ?a"
    by (simp add: list_all_iff) (meson set_takeWhileD)
  moreover have "list_all isWhiteSpace ?b"
    by (simp add: list_all_iff) (meson set_takeWhileD)
  ultimately show ?thesis by blast
qed

lemma trim_ends:
  assumes "trim n \<noteq> []"
  shows "\<not> isWhiteSpace (hd (trim n)) \<and> \<not> isWhiteSpace (last (trim n))"
proof -
  let ?m = "dropWhile isWhiteSpace n"
  let ?r = "dropWhile isWhiteSpace (rev ?m)"
  have r: "?r \<noteq> []" using assms by (simp add: trim_def)
  then have "\<not> isWhiteSpace (hd ?r)" by (rule hd_dropWhile)
  then have l: "\<not> isWhiteSpace (last (trim n))" using r by (simp add: trim_def last_rev)
  have m: "?m \<noteq> []" using r by (metis dropWhile.simps(1) rev.simps(1))
  then have hm: "\<not> isWhiteSpace (hd ?m)" by (rule hd_dropWhile)
  obtain b where b: "?m = trim n @ b"
    by (metis trim_def rev_append rev_rev_ident takeWhile_dropWhile_id)
  then have "hd ?m = hd (trim n)" using assms by (metis hd_append2)
  then show ?thesis using hm l by simp
qed

lemma join_unfold:
  assumes "trim n \<noteq> []"
  shows "join (Some n) uuid now s
    = (Inr (fst (addPlayer (fst (findOrCreatePlayer (trim n) uuid s)) now
                  (snd (findOrCreatePlayer (trim n) uuid s))),
            fst (findOrCreatePlayer (trim n) uuid s)),
       snd (addPlayer (fst (findOrCreatePlayer (trim n) uuid s)) now
                  (snd (findOrCreatePlayer (trim n) uuid s))))"
proof -
  have "n \<noteq> []" using assms by auto
  then show ?thesis using assms by (simp add: join_def split_beta)
qed

lemma findOrCreatePlayer_found:
  "find (\<lambda>k. name (player_of (snd (findOrCreatePlayer n uuid s)) k) = n)
        (players (snd (findOrCreatePlayer n uuid s)))
     = Some (fst (findOrCreatePlayer n uuid s))"
proof (cases "find (\<lambda>k. name (player_of s k) = n) (players s)")
  case (Some k)
  then show ?thesis by (simp add: findOrCreatePlayer_def)
next
  case None
  then have no: "\<forall>k \<in> set (players s). name (player_of s k) \<noteq> n"
    by (simp add: find_None_iff)
  let ?ks = "if uuid \<in> set (players s) then players s else players s @ [uuid]"
  let ?h = "(player_of s)(uuid := Player_new n)"
  have "find (\<lambda>k. name (?h k) = n) ?ks = Some uuid"
    by (rule find_unique) (use no in \<open>auto simp: Player_new_def\<close>)
  then show ?thesis using None by (simp add: findOrCreatePlayer_def)
qed

lemma join_known:
  assumes "trim n \<noteq> []" "find (\<lambda>k. name (player_of s k) = trim n) (players s) = Some k"
  shows "join (Some n) uuid now s = (Inr (fst (addPlayer k now s), k), snd (addPlayer k now s))"
  using assms join_unfold [OF assms(1), of uuid now s] by (simp add: findOrCreatePlayer_def)

text \<open>
  C9.  For a request whose name is not blank the handler looks up the trimmed name.  When a
  player has exactly that name, the first such player is admitted and no player is made.  When
  nobody has it (and the id drawn is new), a player with the trimmed name and the rating 1200
  is made and filed, and then admitted to the queue.  In both cases a later request under a
  name with the same trimmed form addresses the same player: it makes no player and, that
  player being queued or in a match, is refused without any change.  The trimmed name neither
  begins nor ends with white space.
\<close>

theorem join_lookup_or_create:
  assumes nb: "trim n \<noteq> []"
  shows
    "(\<forall>k. find (\<lambda>k. name (player_of s k) = trim n) (players s) = Some k \<longrightarrow>
         k \<in> set (players s) \<and> name (player_of s k) = trim n
       \<and> join (Some n) uuid now s = (Inr (fst (addPlayer k now s), k), snd (addPlayer k now s))
       \<and> players (snd (join (Some n) uuid now s)) = players s)
     \<and> ((\<forall>k \<in> set (players s). name (player_of s k) \<noteq> trim n) \<and> uuid \<notin> set (players s) \<longrightarrow>
         players (snd (join (Some n) uuid now s)) = players s @ [uuid]
       \<and> name (player_of (snd (join (Some n) uuid now s)) uuid) = trim n
       \<and> ranking (player_of (snd (join (Some n) uuid now s)) uuid) = 1200
       \<and> isInQueue (player_of (snd (join (Some n) uuid now s)) uuid)
       \<and> (\<exists>pos. fst (join (Some n) uuid now s) = Inr (Inr pos, uuid)))
     \<and> (\<forall>m uuid' now'. trim m = trim n \<longrightarrow>
         (\<exists>r pid. fst (join (Some n) uuid now s) = Inr (r, pid)
            \<and> name (player_of (snd (join (Some n) uuid now s)) pid) = trim n
            \<and> join (Some m) uuid' now' (snd (join (Some n) uuid now s))
                = (Inr (Inl AlreadyActive, pid), snd (join (Some n) uuid now s))))
     \<and> \<not> isWhiteSpace (hd (trim n)) \<and> \<not> isWhiteSpace (last (trim n))"
proof -
  let ?n = "trim n"
  let ?F = "findOrCreatePlayer ?n uuid s"
  let ?s' = "snd (join (Some n) uuid now s)"
  note ju = join_unfold [OF nb, of uuid now s]
  have a: "k \<in> set (players s) \<and> name (player_of s k) = ?n
       \<and> join (Some n) uuid now s = (Inr (fst (addPlayer k now s), k), snd (addPlayer k now s))
       \<and> players ?s' = players s"
    if f: "find (\<lambda>k. name (player_of s k) = ?n) (players s) = Some k" for k
  proof -
    have F: "?F = (k, s)" using f by (simp add: findOrCreatePlayer_def)
    have "k \<in> set (players s) \<and> name (player_of s k) = ?n"
      using f by (auto simp: find_Some_iff)
    then show ?thesis using ju by (simp add: F addPlayer_keeps)
  qed
  have b: "players ?s' = players s @ [uuid]
       \<and> name (player_of ?s' uuid) = ?n
       \<and> ranking (player_of ?s' uuid) = 1200
       \<and> isInQueue (player_of ?s' uuid)
       \<and> (\<exists>pos. fst (join (Some n) uuid now s) = Inr (Inr pos, uuid))"
    if no: "\<forall>k \<in> set (players s). name (player_of s k) \<noteq> ?n" and fresh: "uuid \<notin> set (players s)"
  proof -
    have "find (\<lambda>k. name (player_of s k) = ?n) (players s) = None"
      using no by (simp add: find_None_iff)
    then have F: "?F = (uuid, s\<lparr>player_of := (player_of s)(uuid := Player_new ?n),
          players := players s @ [uuid]\<rparr>)"
      using fresh by (simp add: findOrCreatePlayer_def)
    show ?thesis
      unfolding ju F
      by (simp add: addPlayer_keeps) (simp add: addPlayer_def addPlayer_with_def Let_def Player_new_def calculateQueueWeight_def)
  qed
  have c: "\<exists>r pid. fst (join (Some n) uuid now s) = Inr (r, pid)
            \<and> name (player_of ?s' pid) = ?n
            \<and> join (Some m) uuid' now' ?s' = (Inr (Inl AlreadyActive, pid), ?s')"
    if tm: "trim m = ?n" for m uuid' now'
  proof -
    let ?pid = "fst ?F"
    let ?s0 = "snd ?F"
    have s': "?s' = snd (addPlayer ?pid now ?s0)" using ju by simp
    have found0: "find (\<lambda>k. name (player_of ?s0 k) = ?n) (players ?s0) = Some ?pid"
      by (rule findOrCreatePlayer_found)
    have found: "find (\<lambda>k. name (player_of ?s' k) = ?n) (players ?s') = Some ?pid"
      unfolding s' using found0 by (simp add: addPlayer_keeps)
    then have F2: "findOrCreatePlayer ?n uuid' ?s' = (?pid, ?s')"
      by (simp add: findOrCreatePlayer_def)
    have nm: "name (player_of ?s' ?pid) = ?n"
      using found by (auto simp: find_Some_iff)
    have act: "isInQueue (player_of ?s' ?pid) \<or> isInMatch (player_of ?s' ?pid)"
      unfolding s' by (rule addPlayer_active)
    then have ap: "addPlayer ?pid now' ?s' = (Inl AlreadyActive, ?s')"
      by (simp add: addPlayer_def addPlayer_with_def Let_def)
    have nbm: "trim m \<noteq> []" using tm nb by simp
    have "join (Some m) uuid' now' ?s' = (Inr (Inl AlreadyActive, ?pid), ?s')"
      unfolding join_unfold [OF nbm] tm F2 by (simp add: ap)
    moreover have "fst (join (Some n) uuid now s) = Inr (fst (addPlayer ?pid now ?s0), ?pid)"
      using ju by simp
    ultimately show ?thesis using nm by blast
  qed
  show ?thesis using a b c trim_ends [OF nb] by blast
qed

theorem join_lookup_or_create_witness:
  "trim ''  Eve '' = ''Eve''
   \<and> list_all (\<lambda>k. name (player_of lobby k) \<noteq> trim ''  Eve '') (players lobby)
   \<and> ''p5'' \<notin> set (players lobby)
   \<and> players (snd (join (Some ''  Eve '') ''p5'' 6000 lobby)) = [''p1'', ''p2'', ''p3'', ''p4'', ''p5'']
   \<and> ranking (player_of (snd (join (Some ''  Eve '') ''p5'' 6000 lobby)) ''p5'') = 1200
   \<and> name (player_of (snd (join (Some ''  Eve '') ''p5'' 6000 lobby)) ''p5'') = ''Eve''
   \<and> fst (join (Some ''Eve'') ''p6'' 7000 (snd (join (Some ''  Eve '') ''p5'' 6000 lobby)))
       = Inr (Inl AlreadyActive, ''p5'')
   \<and> find (\<lambda>k. name (player_of lobby k) = trim '' Bob'') (players lobby) = Some ''p2''
   \<and> players (snd (join (Some '' Bob'') ''p9'' 6000 lobby)) = players lobby"
proof -
  have t: "trim ''  Eve '' = ''Eve''" "trim ''Eve'' = ''Eve''" "trim '' Bob'' = ''Bob''"
    by (simp_all add: trim_def isWhiteSpace_def)
  have nb: "trim ''  Eve '' \<noteq> []" "trim '' Bob'' \<noteq> []" by (simp_all add: t)
  have i: "\<forall>k \<in> set (players lobby). name (player_of lobby k) \<noteq> trim ''  Eve ''"
    and f: "''p5'' \<notin> set (players lobby)" and pl: "players lobby = [''p1'', ''p2'', ''p3'', ''p4'']"
    by (simp_all add: t lobby_def Player_new_def)
  have l: "find (\<lambda>k. name (player_of lobby k) = trim '' Bob'') (players lobby) = Some ''p2''"
    by (simp add: t lobby_def Player_new_def)
  note A = join_lookup_or_create [OF nb(1), of lobby "''p5''" 6000]
  note B = join_lookup_or_create [OF nb(2), of lobby "''p9''" 6000]
  note A2 = A [THEN conjunct2, THEN conjunct1, rule_format]
  note A3 = A [THEN conjunct2, THEN conjunct2, THEN conjunct1, rule_format, of "''Eve''" "''p6''" 7000]
  note B1 = B [THEN conjunct1, rule_format, OF l]
  have new: "players (snd (join (Some ''  Eve '') ''p5'' 6000 lobby)) = players lobby @ [''p5'']
       \<and> name (player_of (snd (join (Some ''  Eve '') ''p5'' 6000 lobby)) ''p5'') = trim ''  Eve ''
       \<and> ranking (player_of (snd (join (Some ''  Eve '') ''p5'' 6000 lobby)) ''p5'') = 1200
       \<and> isInQueue (player_of (snd (join (Some ''  Eve '') ''p5'' 6000 lobby)) ''p5'')
       \<and> (\<exists>pos. fst (join (Some ''  Eve '') ''p5'' 6000 lobby) = Inr (Inr pos, ''p5''))"
    by (rule A2) (use i f in simp)
  then obtain pos where pos: "fst (join (Some ''  Eve '') ''p5'' 6000 lobby) = Inr (Inr pos, ''p5'')"
    by blast
  have "trim ''Eve'' = trim ''  Eve ''" by (simp add: t)
  from A3 [OF this] obtain r pid where
    again: "fst (join (Some ''  Eve '') ''p5'' 6000 lobby) = Inr (r, pid)"
      "join (Some ''Eve'') ''p6'' 7000 (snd (join (Some ''  Eve '') ''p5'' 6000 lobby))
                = (Inr (Inl AlreadyActive, pid), snd (join (Some ''  Eve '') ''p5'' 6000 lobby))"
    by blast
  have "pid = ''p5''" using pos again(1) by simp
  then have a4: "fst (join (Some ''Eve'') ''p6'' 7000 (snd (join (Some ''  Eve '') ''p5'' 6000 lobby)))
       = Inr (Inl AlreadyActive, ''p5'')"
    using again(2) by simp
  have b1: "players (snd (join (Some '' Bob'') ''p9'' 6000 lobby)) = players lobby"
    by (rule B1 [THEN conjunct2, THEN conjunct2, THEN conjunct2])
  show ?thesis
    using t new a4 b1 i f l by (simp add: pl list_all_iff)
qed

section \<open>The order of the queue\<close>

text \<open>
  The doubles that \<open>calculateQueueWeight\<close> passes through for the three players of
  \<open>three_admits\<close>: the minutes since the match, the bonus, the sum, the sum times 100, and the
  rounded hundredths divided by 100.  Then the differences of the three weights.
\<close>

lemma fl_p3_minutes: "fl (186 / 5) = 2617717283409101 / 70368744177664"
  by (subst fl_eval [where k = 47]) (simp_all add: rne_def)

lemma fl_p3_bonus: "fl (2617717283409101 / 2111062325329920) = 5584463537939415 / 4503599627370496"
  by (subst fl_eval [where k = 52]) (simp_all add: rne_def)

lemma fl_p3_sum: "fl (10088063165309911 / 4503599627370496) = 1261007895663739 / 562949953421312"
  by (subst fl_eval [where k = 51]) (simp_all add: rne_def)

lemma fl_p3_scaled: "fl (31525197391593475 / 140737488355328) = 7881299347898369 / 35184372088832"
  by (subst fl_eval [where k = 45]) (simp_all add: rne_def)

lemma fl_p3_weight: "fl (56 / 25) = 1261007895663739 / 562949953421312"
  by (subst fl_eval [where k = 51]) (simp_all add: rne_def)

lemma fl_p2_minutes: "fl (75 / 2) = 75 / 2"
  by (subst fl_eval [where k = 47]) (simp_all add: rne_def)

lemma fl_p2_bonus: "fl (5 / 4) = 5 / 4"
  by (subst fl_eval [where k = 52]) (simp_all add: rne_def)

lemma fl_p2_weight: "fl (9 / 4) = 9 / 4"
  by (subst fl_eval [where k = 51]) (simp_all add: rne_def)

lemma fl_p1_minutes: "fl (189 / 5) = 2659938529915699 / 70368744177664"
  by (subst fl_eval [where k = 47]) (simp_all add: rne_def)

lemma fl_p1_bonus: "fl (2659938529915699 / 2111062325329920) = 5674535530486825 / 4503599627370496"
  by (subst fl_eval [where k = 52]) (simp_all add: rne_def)

lemma fl_p1_sum: "fl (10178135157857321 / 4503599627370496) = 1272266894732165 / 562949953421312"
  by (subst fl_eval [where k = 51]) (simp_all add: rne_def)

lemma fl_p1_scaled: "fl (31806672368304125 / 140737488355328) = 7951668092076031 / 35184372088832"
  by (subst fl_eval [where k = 45]) (simp_all add: rne_def)

lemma fl_p1_weight: "fl (113 / 50) = 1272266894732165 / 562949953421312"
  by (subst fl_eval [where k = 51]) (simp_all add: rne_def)

lemma fl_one_step: "fl (5629499534213 / 562949953421312) = 5629499534213 / 562949953421312"
  by (subst fl_eval [where k = 59]) (simp_all add: rne_def)

lemma fl_neg_one_step: "fl (- (5629499534213 / 562949953421312)) = - (5629499534213 / 562949953421312)"
  by (subst fl_eval [where k = 59]) (simp_all add: rne_def)

lemma fl_two_steps: "fl (5629499534213 / 281474976710656) = 5629499534213 / 281474976710656"
  by (subst fl_eval [where k = 58]) (simp_all add: rne_def)

lemma fl_neg_two_steps: "fl (- (5629499534213 / 281474976710656)) = - (5629499534213 / 281474976710656)"
  by (subst fl_eval [where k = 58]) (simp_all add: rne_def)

lemma weight_p3:
  assumes "lastMatchTime p = Some (now - 2232000)" "1000 \<le> ranking p"
  shows "queueWeight (calculateQueueWeight now p) = 1261007895663739 / 562949953421312"
  using assms
  by (simp add: calculateQueueWeight_def Let_def Math_round_def fl_numeral fl_p3_minutes fl_p3_bonus fl_p3_sum fl_p3_scaled fl_p3_weight)

lemma weight_p2:
  assumes "lastMatchTime p = Some (now - 2250000)" "1000 \<le> ranking p"
  shows "queueWeight (calculateQueueWeight now p) = 9 / 4"
  using assms
  by (simp add: calculateQueueWeight_def Let_def Math_round_def fl_numeral fl_p2_minutes fl_p2_bonus fl_p2_weight)

lemma weight_p1:
  assumes "lastMatchTime p = Some (now - 2268000)" "1000 \<le> ranking p"
  shows "queueWeight (calculateQueueWeight now p) = 1272266894732165 / 562949953421312"
  using assms
  by (simp add: calculateQueueWeight_def Let_def Math_round_def fl_numeral fl_p1_minutes fl_p1_bonus fl_p1_sum fl_p1_scaled fl_p1_weight)

lemma compare_p2_p3: "\<not> compareItems entry_p2 entry_p3 < 0"
  by (simp add: compareItems_def entry_p2_def entry_p3_def fl_one_step fl_hundredth fl_numeral)

lemma compare_p1_p3: "compareItems entry_p1 entry_p3 < 0"
  by (simp add: compareItems_def entry_p1_def entry_p3_def fl_two_steps fl_neg_two_steps fl_hundredth)

lemma trim_names: "trim ''Ann'' = ''Ann''" "trim ''Bob'' = ''Bob''" "trim ''Cyd'' = ''Cyd''"
  by (simp_all add: trim_def isWhiteSpace_def)

lemma three_admits_eq:
  "three_admits
     = snd (addPlayer ''p1'' 2277000 (snd (addPlayer ''p2'' 2259000 (snd (addPlayer ''p3'' 2241000 rested)))))"
proof -
  let ?s1 = "snd (addPlayer ''p3'' 2241000 rested)"
  let ?s2 = "snd (addPlayer ''p2'' 2259000 ?s1)"
  have 1: "snd (join (Some ''Cyd'') ''p5'' 2241000 rested) = ?s1"
    by (subst join_known [where k = "''p3''"]) (simp_all add: trim_names rested_def)
  have 2: "snd (join (Some ''Bob'') ''p6'' 2259000 ?s1) = ?s2"
    by (subst join_known [where k = "''p2''"]) (simp_all add: trim_names addPlayer_keeps rested_def)
  have 3: "snd (join (Some ''Ann'') ''p7'' 2277000 ?s2) = snd (addPlayer ''p1'' 2277000 ?s2)"
    by (subst join_known [where k = "''p1''"]) (simp_all add: trim_names addPlayer_keeps rested_def)
  show ?thesis by (simp add: three_admits_def 1 2 3)
qed

lemma three_admits_queue: "badmintonQueue three_admits = [entry_p1, entry_p3, entry_p2]"
proof -
  let ?s1 = "snd (addPlayer ''p3'' 2241000 rested)"
  let ?s2 = "snd (addPlayer ''p2'' 2259000 ?s1)"
  have p3: "player_of rested ''p3'' = \<lparr>name = ''Cyd'', ranking = 1184, wins = 0, losses = 1, totalMatches = 1,
                    queueWeight = 1, lastMatchTime = Some 9000, isInQueue = False, isInMatch = False\<rparr>"
    and p2: "player_of rested ''p2'' = \<lparr>name = ''Bob'', ranking = 1216, wins = 1, losses = 0, totalMatches = 1,
                    queueWeight = 1, lastMatchTime = Some 9000, isInQueue = False, isInMatch = False\<rparr>"
    and p1: "player_of rested ''p1'' = \<lparr>name = ''Ann'', ranking = 1216, wins = 1, losses = 0, totalMatches = 1,
                    queueWeight = 1, lastMatchTime = Some 9000, isInQueue = False, isInMatch = False\<rparr>"
    and q0: "badmintonQueue rested = []"
    by (simp_all add: rested_def)
  have q1: "badmintonQueue ?s1 = [entry_p3]"
    by (subst addPlayer_queue) (simp_all add: p3 q0 weight_p3 sort_js_def entry_p3_def)
  have p2': "player_of ?s1 ''p2'' = player_of rested ''p2''"
    and p1': "player_of ?s1 ''p1'' = player_of rested ''p1''"
    by (simp_all add: addPlayer_others)
  have q2: "badmintonQueue ?s2 = [entry_p3, entry_p2]"
    by (subst addPlayer_queue)
      (simp_all add: p2' p2 q1 weight_p2 sort_js_def entry_p2_def [symmetric] compare_p2_p3)
  have p1'': "player_of ?s2 ''p1'' = player_of rested ''p1''"
    by (simp add: addPlayer_others p1')
  have "badmintonQueue (snd (addPlayer ''p1'' 2277000 ?s2)) = [entry_p1, entry_p3, entry_p2]"
    by (subst addPlayer_queue)
      (simp_all add: p1'' p1 q2 weight_p1 sort_js_def entry_p1_def [symmetric] compare_p2_p3 compare_p1_p3)
  then show ?thesis by (simp add: three_admits_eq)
qed

lemma inOrder_facts:
  "inOrder entry_p3 entry_p2" "\<not> inOrder entry_p2 entry_p3"
  "inOrder entry_p2 entry_p1" "\<not> inOrder entry_p1 entry_p2"
  "inOrder entry_p1 entry_p3" "\<not> inOrder entry_p3 entry_p1"
  by (simp_all add: inOrder_def entry_p1_def entry_p2_def entry_p3_def)

text \<open>
  C1.  The queue is not always in the order that the specification asks.  From the state after
  a resolved match, \<open>p3\<close>, \<open>p2\<close> and \<open>p1\<close> join again 37.2, 37.5 and 37.8 minutes after the
  match; \<open>addPlayer\<close> admits them with the weights 2.24, 2.25 and 2.26.  As doubles, 2.25 and
  2.24 differ by less than 0.01, and so do 2.26 and 2.25, but 2.26 and 2.24 do not: the
  comparator of \<open>addPlayer\<close> puts \<open>p3\<close> before \<open>p2\<close> and \<open>p2\<close> before \<open>p1\<close> by admission
  time, and \<open>p1\<close> before \<open>p3\<close> by weight.  The queue that results is not in order.
\<close>

theorem three_admits_not_ordered:
  "\<not> queueOrdered (badmintonQueue three_admits)"
  by (simp add: three_admits_queue queueOrdered_def inOrder_facts)

text \<open>
  No arrangement of these three entries is in order, so the failure does not depend on how a
  sort treats a comparator that is not an ordering.
\<close>

lemma no_arrangement_ordered:
  assumes "mset q = mset (badmintonQueue three_admits)"
  shows "\<not> queueOrdered q"
proof -
  have m: "mset q = mset [entry_p1, entry_p3, entry_p2]"
    using assms by (simp add: three_admits_queue)
  have "length q = length [entry_p1, entry_p3, entry_p2]"
    using m by (rule mset_eq_length)
  then obtain x y z where q: "q = [x, y, z]"
    by (auto simp: length_Suc_conv numeral_3_eq_3)
  have ne: "entry_p1 \<noteq> entry_p2" "entry_p1 \<noteq> entry_p3" "entry_p2 \<noteq> entry_p3"
    by (simp_all add: entry_p1_def entry_p2_def entry_p3_def)
  have s: "set q = {entry_p1, entry_p2, entry_p3}"
    using mset_eq_setD [OF m] by auto
  have d: "distinct q"
    using mset_eq_imp_distinct_iff [OF m] ne by simp
  have x: "x = entry_p1 \<or> x = entry_p2 \<or> x = entry_p3"
    and y: "y = entry_p1 \<or> y = entry_p2 \<or> y = entry_p3"
    and z: "z = entry_p1 \<or> z = entry_p2 \<or> z = entry_p3"
    using s unfolding q by auto
  have dd: "x \<noteq> y" "x \<noteq> z" "y \<noteq> z" using d unfolding q by auto
  show ?thesis
    unfolding queueOrdered_def q using x y z dd inOrder_facts by auto
qed

text \<open>
  When any two weights in the queue, the new one included, are equal or compare at least 0.01
  apart, the comparator is an ordering and \<open>addPlayer\<close> leaves the queue sorted by weight, the
  higher first, and among equal weights by admission time, the earlier first.
\<close>

lemma addPlayer_ordered_if_apart:
  assumes idle: "\<not> isInQueue (player_of s pid)" "\<not> isInMatch (player_of s pid)"
    and ap: "apart (badmintonQueue s @
               [\<lparr>player = pid, joinTime = now,
                 weight = queueWeight (calculateQueueWeight now ((player_of s pid)\<lparr>isInQueue := True\<rparr>))\<rparr>])"
    and times: "list_all (\<lambda>a. \<bar>joinTime a\<bar> < 2 ^ 52) (badmintonQueue s)" "\<bar>now\<bar> < 2 ^ 52"
  shows "sorted_wrt keyOrder (badmintonQueue (snd (addPlayer pid now s)))"
proof -
  let ?e = "\<lparr>player = pid, joinTime = now,
       weight = queueWeight (calculateQueueWeight now ((player_of s pid)\<lparr>isInQueue := True\<rparr>))\<rparr>"
  let ?xs = "badmintonQueue s @ [?e]"
  have q: "badmintonQueue (snd (addPlayer pid now s)) = sort_js compareItems ?xs"
    using idle by (rule addPlayer_queue)
  have t: "\<bar>joinTime a\<bar> < 2 ^ 52" if "a \<in> set ?xs" for a
    using that times by (auto simp: list_all_iff)
  have sep: "weight a = weight b \<or> fl (1 / 100) \<le> \<bar>fl (weight a - weight b)\<bar>"
    if "a \<in> set ?xs" "b \<in> set ?xs" for a b
    using ap that unfolding apart_def list_all_iff by blast
  have less: "compareItems a b < 0
      \<longleftrightarrow> weight b < weight a \<or> (weight a = weight b \<and> joinTime a < joinTime b)"
    if "a \<in> set ?xs" "b \<in> set ?xs" for a b
    by (rule compareItems_less) (use that sep t in auto)
  have "sorted_wrt (\<lambda>a b. \<not> compareItems b a < 0) (sort_js compareItems ?xs)"
  proof (rule sort_js_sorted)
    fix x y assume h: "x \<in> set ?xs" "y \<in> set ?xs" "compareItems x y < 0"
    have "weight y < weight x \<or> (weight x = weight y \<and> joinTime x < joinTime y)"
      using h less [of x y] by blast
    then have "\<not> (weight x < weight y \<or> (weight y = weight x \<and> joinTime y < joinTime x))"
      by linarith
    then show "\<not> compareItems y x < 0" using h less [of y x] by blast
  next
    fix x y z
    assume h: "x \<in> set ?xs" "y \<in> set ?xs" "z \<in> set ?xs" "compareItems x y < 0"
      "\<not> compareItems z y < 0"
    have 1: "weight y < weight x \<or> (weight x = weight y \<and> joinTime x < joinTime y)"
      using h less [of x y] by blast
    have 2: "\<not> (weight y < weight z \<or> (weight z = weight y \<and> joinTime z < joinTime y))"
      using h less [of z y] by blast
    have "\<not> (weight x < weight z \<or> (weight z = weight x \<and> joinTime z < joinTime x))"
      using 1 2 by linarith
    then show "\<not> compareItems z x < 0" using h less [of z x] by blast
  qed
  then have "sorted_wrt keyOrder (sort_js compareItems ?xs)"
  proof (rule sorted_wrt_mono_rel [rotated])
    fix a b assume h: "a \<in> set (sort_js compareItems ?xs)" "b \<in> set (sort_js compareItems ?xs)"
      "\<not> compareItems b a < 0"
    have m: "a \<in> set ?xs" "b \<in> set ?xs" using h by (simp_all only: set_sort_js)
    have "\<not> (weight a < weight b \<or> (weight b = weight a \<and> joinTime b < joinTime a))"
      using h(3) less [OF m(2) m(1)] by blast
    then show "keyOrder a b" unfolding keyOrder_def by linarith
  qed
  then show ?thesis by (simp only: q)
qed

lemma keyOrder_inOrder:
  assumes "keyOrder a b" "weight a = weight b \<or> 1 / 100 \<le> \<bar>weight a - weight b\<bar>"
  shows "inOrder a b"
  using assms by (auto simp: keyOrder_def inOrder_def)

lemma queueOrdered_if_apart:
  assumes "sorted_wrt keyOrder q"
    and "list_all (\<lambda>a. list_all (\<lambda>b. weight a = weight b \<or> 1 / 100 \<le> \<bar>weight a - weight b\<bar>) q) q"
  shows "queueOrdered q"
  unfolding queueOrdered_def
  using assms(1)
proof (rule sorted_wrt_mono_rel [rotated])
  fix a b assume "a \<in> set q" "b \<in> set q" "keyOrder a b"
  then show "inOrder a b" using assms(2) keyOrder_inOrder unfolding list_all_iff by blast
qed

lemma lobby_ordered: "queueOrdered (badmintonQueue lobby)"
  by (simp add: queueOrdered_def inOrder_def lobby_def)

section \<open>The position of an admitted player\<close>

text \<open>
  The example state \<open>waiting\<close>: Dee was admitted with the weight 2.0 and Cyd, later, with the
  weight 3.0, so Cyd stands first.
\<close>

lemma trim_Dee: "trim ''Dee'' = ''Dee''"
  by (simp add: trim_def isWhiteSpace_def)





section \<open>Rating and weight\<close>

lemma Math_pow_accurate: "pow_accurate Math_pow"
  unfolding pow_accurate_def
proof (intro allI impI)
  fix y :: real assume y: "\<bar>y\<bar> \<le> 300"
  have "(2::real) powr - 1022 = 1 / 2 ^ 1022"
    by (simp add: powr_minus_divide)
  also have "\<dots> \<le> 1 / 10 ^ 300" by simp
  also have "\<dots> = 10 powr - 300" by (simp add: powr_minus_divide)
  also have "\<dots> \<le> 10 powr y" using y by (intro powr_mono) simp_all
  finally have "2 powr - 1022 \<le> \<bar>10 powr y\<bar>" by simp
  then have "\<bar>fl (10 powr y) - 10 powr y\<bar> \<le> \<bar>10 powr y\<bar> / 2 ^ 53" by (rule fl_err_rel)
  also have "\<dots> \<le> 10 powr y / 2 ^ 48" by (simp add: field_simps)
  finally show "\<bar>Math_pow 10 y - 10 powr y\<bar> \<le> 10 powr y / 2 ^ 48" by (simp add: Math_pow_def)
qed

lemma exponent_range:
  fixes r opp :: real
  assumes "\<bar>r\<bar> \<le> 50000" "\<bar>opp\<bar> \<le> 50000"
  shows "\<bar>fl (fl (opp - r) / 400)\<bar> \<le> 300"
proof -
  have dd: "\<bar>opp - r\<bar> \<le> 2 ^ 17" using assms by (simp add: abs_if split: if_splits)
  have d1: "\<bar>fl (opp - r) - (opp - r)\<bar> \<le> 1 / 2 ^ 36"
    using fl_err_abs [OF dd] by simp
  have b: "\<bar>fl (opp - r)\<bar> \<le> 100001" using d1 assms by (simp add: abs_if split: if_splits)
  then have x1: "\<bar>fl (opp - r) / 400\<bar> \<le> 2 ^ 8" by simp
  have "\<bar>fl (fl (opp - r) / 400) - fl (opp - r) / 400\<bar> \<le> 1 / 2 ^ 45"
    using fl_err_abs [OF x1] by simp
  then show ?thesis using b by (simp add: abs_if split: if_splits)
qed

lemma floor_between:
  fixes n m :: int and A B :: real
  assumes "\<lfloor>A\<rfloor> \<le> n" "n \<le> \<lfloor>B\<rfloor>" "of_int m \<le> A" "B < of_int m + 1"
  shows "n = m"
proof -
  have "m \<le> \<lfloor>A\<rfloor>" using assms(3) by (simp add: le_floor_iff)
  moreover have "\<lfloor>B\<rfloor> < m + 1" using assms(4) floor_less_iff [of B "m + 1"] by simp
  ultimately show ?thesis using assms(1,2) by linarith
qed

text \<open>
  C2.  \<open>updateRanking\<close> sets the rating to \<open>round(r + 32 * (actual - E))\<close> with
  \<open>E = 1 / (1 + 10^((opponent - r) / 400))\<close> and \<open>actual\<close> 1 for a win and 0 for a loss.
  The code computes the formula in double arithmetic, with the power of the implementation.
  For every implementation whose power is accurate, and ratings of magnitude up to 50000, the
  value it rounds is within \<open>2^-28\<close> of the value \<open>X\<close> of the formula in exact arithmetic:
  the new rating lies between \<open>floor(X + 1/2 - 2^-28)\<close> and \<open>floor(X + 1/2 + 2^-28)\<close>, which
  are both \<open>round(X)\<close> unless \<open>X\<close> is that close to the middle between two integers: when
  the fractional part of \<open>X + 1/2\<close> is neither below \<open>2^-28\<close> nor within \<open>2^-28\<close> of 1, the new
  rating is \<open>round(X)\<close>.
  Against an opponent of the same rating a win adds exactly 16 and a loss takes exactly 16.
  The counters of wins, losses and matches go up by one as the result says.
\<close>

theorem updateRanking_elo:
  assumes engine: "pow_accurate pw"
    and range: "\<bar>ranking p\<bar> \<le> 50000" "\<bar>opponentRanking\<bar> \<le> 50000"
  shows "(let actual = (if won then 1 else 0);
              E = 1 / (1 + 10 powr ((opponentRanking - of_int (ranking p)) / 400));
              X = of_int (ranking p) + 32 * (actual - E);
              p' = updateRanking_with pw won opponentRanking p
          in \<lfloor>X + 1 / 2 - 1 / 2 ^ 28\<rfloor> \<le> ranking p' \<and> ranking p' \<le> \<lfloor>X + 1 / 2 + 1 / 2 ^ 28\<rfloor>
           \<and> (opponentRanking = of_int (ranking p)
                \<longrightarrow> ranking p' = ranking p + (if won then 16 else - 16))
           \<and> wins p' = (if won then wins p + 1 else wins p)
           \<and> losses p' = (if won then losses p else losses p + 1)
           \<and> totalMatches p' = totalMatches p + 1
           \<and> (1 / 2 ^ 28 \<le> frac (X + 1 / 2) \<and> frac (X + 1 / 2) < 1 - 1 / 2 ^ 28
                \<longrightarrow> ranking p' = Math_round X))"
proof -
  define r :: real where "r = of_int (ranking p)"
  define a :: real where "a = (if won then 1 else 0)"
  define y where "y = fl (fl (opponentRanking - r) / 400)"
  define X where "X = r + 32 * (a - 1 / (1 + 10 powr ((opponentRanking - r) / 400)))"
  define R where "R = fl (r + fl (32 * fl (a - fl (1 / fl (1 + pw 10 y)))))"
  let ?p' = "updateRanking_with pw won opponentRanking p"
  have rr: "\<bar>r\<bar> \<le> 50000" using range(1) by (simp add: r_def)
  have a: "0 \<le> a" "a \<le> 1" by (simp_all add: a_def)
  have "\<bar>y\<bar> \<le> 300" unfolding y_def using rr range(2) by (rule exponent_range)
  then have acc: "\<bar>pw 10 y - 10 powr y\<bar> \<le> 10 powr y / 2 ^ 48"
    using engine by (simp add: pow_accurate_def)
  have err: "\<bar>R - X\<bar> \<le> 1 / 2 ^ 28"
    unfolding R_def X_def y_def using rr range(2) a acc [unfolded y_def] by (rule elo_error)
  have new: "ranking ?p' = \<lfloor>R + 1 / 2\<rfloor>"
    by (simp add: updateRanking_with_def expectedScore_with_def Let_def Math_round_def R_def r_def
        a_def y_def)
  have lo: "\<lfloor>X + 1 / 2 - 1 / 2 ^ 28\<rfloor> \<le> \<lfloor>R + 1 / 2\<rfloor>"
    using err by (intro floor_mono) (simp add: abs_if split: if_splits)
  have hi: "\<lfloor>R + 1 / 2\<rfloor> \<le> \<lfloor>X + 1 / 2 + 1 / 2 ^ 28\<rfloor>"
    using err by (intro floor_mono) (simp add: abs_if split: if_splits)
  have eq: "ranking ?p' = ranking p + (if won then 16 else - 16)" if e: "opponentRanking = of_int (ranking p)"
  proof -
    have X16: "X = of_int (ranking p + (if won then 16 else - 16))"
      using e by (simp add: X_def r_def a_def)
    have "\<lfloor>X + 1 / 2 - 1 / 2 ^ 28\<rfloor> = ranking p + (if won then 16 else - 16)"
      unfolding X16 by (simp add: floor_eq_iff)
    moreover have "\<lfloor>X + 1 / 2 + 1 / 2 ^ 28\<rfloor> = ranking p + (if won then 16 else - 16)"
      unfolding X16 by (simp add: floor_eq_iff)
    ultimately show ?thesis using lo hi new by simp
  qed
  have cnt: "wins ?p' = (if won then wins p + 1 else wins p)"
    "losses ?p' = (if won then losses p else losses p + 1)"
    "totalMatches ?p' = totalMatches p + 1"
    by (simp_all add: updateRanking_with_def Let_def)
  have far: "\<lfloor>R + 1 / 2\<rfloor> = Math_round X"
    if f: "1 / 2 ^ 28 \<le> frac (X + 1 / 2)" "frac (X + 1 / 2) < 1 - 1 / 2 ^ 28"
    unfolding Math_round_def
  proof (rule floor_between [OF lo hi])
    show "of_int \<lfloor>X + 1 / 2\<rfloor> \<le> X + 1 / 2 - 1 / 2 ^ 28"
      using f(1) by (simp add: frac_def)
    show "X + 1 / 2 + 1 / 2 ^ 28 < of_int \<lfloor>X + 1 / 2\<rfloor> + 1"
      using f(2) by (simp add: frac_def)
  qed
  show ?thesis
    using lo hi eq cnt far unfolding Let_def new X_def r_def a_def by simp
qed

theorem updateRanking_elo_witness:
  "pow_accurate Math_pow
   \<and> ranking (updateRanking True 1400 ((Player_new ''Underdog'')\<lparr>ranking := 1000\<rparr>)) = 1029
   \<and> ranking (updateRanking True 1000 (Player_new ''Ann'')) = 1208
   \<and> ranking (updateRanking True 1200 (Player_new ''Ann'')) = 1216
   \<and> ranking (updateRanking False 1200 (Player_new ''Ann'')) = 1184"
proof -
  let ?u = "(Player_new ''Underdog'')\<lparr>ranking := 1000\<rparr>"
  let ?a = "Player_new ''Ann''"
  have ru: "ranking ?u = 1000" and ra: "ranking ?a = 1200"
    by (simp_all add: Player_new_def)
  have bu: "\<bar>ranking ?u\<bar> \<le> 50000" and ba: "\<bar>ranking ?a\<bar> \<le> 50000"
    by (simp_all add: Player_new_def)
  note T = updateRanking_elo [OF Math_pow_accurate, unfolded Let_def]
  have 1: "ranking (updateRanking_with Math_pow True 1400 ?u) = 1029"
  proof -
    have o: "\<bar>1400 :: real\<bar> \<le> 50000" by simp
    note Tu = T [of ?u 1400 True, OF bu o]
    show ?thesis
      by (rule floor_between [OF Tu [THEN conjunct1] Tu [THEN conjunct2, THEN conjunct1]])
        (simp_all add: ru)
  qed
  have 2: "ranking (updateRanking_with Math_pow True 1000 ?a) = 1208"
  proof -
    define t :: real where "t = 10 powr ((1000 - 1200) / 400)"
    have ts: "t = 1 / sqrt 10" by (simp add: t_def powr_minus_divide powr_half_sqrt)
    have s3: "3 < sqrt (10::real)" by (rule real_less_rsqrt) simp
    have s4: "sqrt (10::real) < 16 / 5" by (rule real_less_lsqrt) (simp_all add: power2_eq_square)
    have "1 / sqrt (10::real) < 1 / 3" using s3 by (simp add: field_simps)
    moreover have "1 / (16 / 5) < 1 / sqrt (10::real)"
      using s3 s4 by (intro divide_strict_left_mono) simp_all
    ultimately have t: "5 / 16 < t" "t < 1 / 3" by (simp_all add: ts)
    have E: "3 / 4 < 1 / (1 + t)" "1 / (1 + t) < 16 / 21"
      using t by (simp_all add: field_simps)
    have o: "\<bar>1000 :: real\<bar> \<le> 50000" by simp
    note Ta = T [of ?a 1000 True, OF ba o]
    show ?thesis
      by (rule floor_between [OF Ta [THEN conjunct1] Ta [THEN conjunct2, THEN conjunct1]])
        (use E in \<open>simp_all add: ra t_def\<close>)
  qed
  have o: "\<bar>1200 :: real\<bar> \<le> 50000" by simp
  have 3: "ranking (updateRanking_with Math_pow True 1200 ?a) = 1216"
    using T [of ?a 1200 True, OF ba o] by (simp add: ra)
  have 4: "ranking (updateRanking_with Math_pow False 1200 ?a) = 1184"
    using T [of ?a 1200 False, OF ba o] by (simp add: ra)
  show ?thesis
    using Math_pow_accurate 1 2 3 4 by (simp add: updateRanking_def)
qed

text \<open>
  C8.  The weight is 1.0 plus the bonus \<open>min(minutes / 30, 2.0)\<close>, rounded to two decimals.
  The bonus grows by 1.0 in 30 minutes, so it reaches its cap of 2.0 after 60 minutes and not,
  as the comment in \<open>calculateQueueWeight\<close> has it, after 30: a player with a rating of at
  least 1000 gets the weight 2.5 when admitted 45 minutes after the last match, not 3.0; the
  weight is 2.0 after 30 minutes, and it is 3.0 from 60 minutes on.
\<close>

theorem weight_after_45_minutes:
  assumes "lastMatchTime p = Some t" and "1000 \<le> ranking p"
  shows "queueWeight (calculateQueueWeight (t + 45 * 60 * 1000) p) = 5 / 2
    \<and> queueWeight (calculateQueueWeight (t + 30 * 60 * 1000) p) = 2
    \<and> (\<forall>now. t + 60 * 60 * 1000 \<le> now \<and> now - t < 2 ^ 53
          \<longrightarrow> queueWeight (calculateQueueWeight now p) = 3)"
proof -
  have a: "queueWeight (calculateQueueWeight (t + 45 * 60 * 1000) p) = 5 / 2"
    using assms
    by (simp add: calculateQueueWeight_def Let_def fl_numeral fl_three_halves fl_five_halves)
  have b: "queueWeight (calculateQueueWeight (t + 30 * 60 * 1000) p) = 2"
    using assms by (rule weight_after_30_minutes)
  have c: "queueWeight (calculateQueueWeight now p) = 3"
    if "t + 60 * 60 * 1000 \<le> now" "now - t < 2 ^ 53" for now
    using assms that by (rule weight_capped)
  show ?thesis using a b c by blast
qed

theorem weight_after_45_minutes_witness:
  "lastMatchTime ((Player_new ''Ann'')\<lparr>lastMatchTime := Some 0\<rparr>) = Some 0
   \<and> 1000 \<le> ranking ((Player_new ''Ann'')\<lparr>lastMatchTime := Some 0\<rparr>)
   \<and> queueWeight (calculateQueueWeight 2700000 ((Player_new ''Ann'')\<lparr>lastMatchTime := Some 0\<rparr>)) = 5 / 2
   \<and> queueWeight (calculateQueueWeight 2700000 ((Player_new ''Ann'')\<lparr>lastMatchTime := Some 0\<rparr>)) \<noteq> 3
   \<and> queueWeight (calculateQueueWeight 1800000 ((Player_new ''Ann'')\<lparr>lastMatchTime := Some 0\<rparr>)) = 2
   \<and> queueWeight (calculateQueueWeight 3600000 ((Player_new ''Ann'')\<lparr>lastMatchTime := Some 0\<rparr>)) = 3
   \<and> queueWeight (calculateQueueWeight 5400000 ((Player_new ''Ann'')\<lparr>lastMatchTime := Some 0\<rparr>)) = 3"
proof -
  have h: "lastMatchTime ((Player_new ''Ann'')\<lparr>lastMatchTime := Some 0\<rparr>) = Some 0"
    "1000 \<le> ranking ((Player_new ''Ann'')\<lparr>lastMatchTime := Some 0\<rparr>)"
    by (simp_all add: Player_new_def)
  note W = weight_after_45_minutes [OF h]
  have 1: "queueWeight (calculateQueueWeight 2700000 ((Player_new ''Ann'')\<lparr>lastMatchTime := Some 0\<rparr>)) = 5 / 2"
    using W [THEN conjunct1] by simp
  have 2: "queueWeight (calculateQueueWeight 1800000 ((Player_new ''Ann'')\<lparr>lastMatchTime := Some 0\<rparr>)) = 2"
    using W [THEN conjunct2, THEN conjunct1] by simp
  have 3: "queueWeight (calculateQueueWeight 3600000 ((Player_new ''Ann'')\<lparr>lastMatchTime := Some 0\<rparr>)) = 3"
    using W [THEN conjunct2, THEN conjunct2, rule_format, of 3600000] by simp
  have 4: "queueWeight (calculateQueueWeight 5400000 ((Player_new ''Ann'')\<lparr>lastMatchTime := Some 0\<rparr>)) = 3"
    using W [THEN conjunct2, THEN conjunct2, rule_format, of 5400000] by simp
  show ?thesis using h 1 2 3 4 by simp
qed

section \<open>Resolving a match\<close>

lemma completeMatch_status:
  "status (match_of (completeMatch mid winners losers now s) mid) = Completed
   \<and> matches (completeMatch mid winners losers now s) = matches s
   \<and> activeMatches (completeMatch mid winners losers now s) = activeMatches s"
  by (simp add: completeMatch_def Let_def)

lemma complete_match_ok:
  assumes "fst (complete_match (Some mid) (Some wids) now s) = Inr ()"
  shows "mid \<noteq> [] \<and> length wids = 2 \<and> mid \<in> set (matches s) \<and> status (match_of s mid) = Active
    \<and> length (filter (\<lambda>p. p \<in> set wids) (m_players (match_of s mid))) = 2
    \<and> length (filter (\<lambda>p. p \<notin> set wids) (m_players (match_of s mid))) = 2
    \<and> player_of (snd (complete_match (Some mid) (Some wids) now s))
        = player_of (completeMatch mid (filter (\<lambda>p. p \<in> set wids) (m_players (match_of s mid)))
            (filter (\<lambda>p. p \<notin> set wids) (m_players (match_of s mid))) now s)"
  using assms by (auto simp: complete_match_def Let_def split: if_splits)

lemma completeMatch_players:
  assumes "distinct winners" "distinct losers" "set winners \<inter> set losers = {}"
  shows "player_of (completeMatch mid winners losers now s) p =
    (if p \<in> set winners
     then finishPlayer True (avgRanking (player_of s) losers) now (player_of s p)
     else if p \<in> set losers
     then finishPlayer False (avgRanking (player_of s) winners) now (player_of s p)
     else player_of s p)"
  using assms by (auto simp: completeMatch_def Let_def foldl_heap_distinct)

lemma avgRanking_pair:
  assumes "\<bar>ranking (h a)\<bar> < 2 ^ 52" "\<bar>ranking (h b)\<bar> < 2 ^ 52"
  shows "avgRanking h [a, b] = (of_int (ranking (h a)) + of_int (ranking (h b))) / 2"
proof -
  have a: "\<bar>ranking (h a)\<bar> < 2 ^ 53" using assms(1) by simp
  have s: "\<bar>ranking (h a) + ranking (h b)\<bar> < 2 ^ 53" using assms by simp
  have "avgRanking h [a, b]
      = fl (fl (fl (of_int (ranking (h a))) + of_int (ranking (h b))) / 2)"
    by (simp add: avgRanking_def)
  also have "\<dots> = fl (fl (of_int (ranking (h a) + ranking (h b))) / 2)"
    by (simp add: fl_of_int [OF a])
  also have "\<dots> = fl (of_int (ranking (h a) + ranking (h b)) / 2)"
    by (simp only: fl_of_int [OF s])
  also have "\<dots> = of_int (ranking (h a) + ranking (h b)) / 2"
    by (rule fl_half_int [OF s])
  finally show ?thesis by simp
qed

lemma finishPlayer_fields:
  "ranking (finishPlayer won opp now p)
     = Math_round (fl (of_int (ranking p)
         + fl (32 * fl ((if won then 1 else 0) - expectedScore opp (ranking p)))))"
  "wins (finishPlayer won opp now p) = wins p + (if won then 1 else 0)"
  "losses (finishPlayer won opp now p) = losses p + (if won then 0 else 1)"
  "totalMatches (finishPlayer won opp now p) = totalMatches p + 1"
  "lastMatchTime (finishPlayer won opp now p) = Some now"
  "isInMatch (finishPlayer won opp now p) = False"
  "isInQueue (finishPlayer won opp now p) = isInQueue p"
  "name (finishPlayer won opp now p) = name p"
  by (simp_all add: finishPlayer_def updateRanking_unfold Let_def)

text \<open>
  C3.  When the handler resolves a match whose roster consists of distinct players, with
  ratings that a double holds exactly and none of them flagged as queued, the two winners and
  the two losers are updated by \<open>finishPlayer\<close> from their records before the call, the
  opponent rating of each being the arithmetic mean of the ratings that the two players of the
  other side had before the call.  So each member of the roster gets the new rating, one more
  win or one more loss, one more match, the time of the call as last match time, and is
  neither in a match nor queued; nobody else changes.
\<close>

theorem complete_match_updates:
  assumes ok: "fst (complete_match (Some mid) (Some wids) now s) = Inr ()"
    and dist: "distinct (m_players (match_of s mid))"
    and rng: "\<forall>p \<in> set (m_players (match_of s mid)). \<bar>ranking (player_of s p)\<bar> < 2 ^ 52"
    and notq: "\<forall>p \<in> set (m_players (match_of s mid)). \<not> isInQueue (player_of s p)"
  shows "\<exists>w1 w2 l1 l2.
      filter (\<lambda>p. p \<in> set wids) (m_players (match_of s mid)) = [w1, w2]
    \<and> filter (\<lambda>p. p \<notin> set wids) (m_players (match_of s mid)) = [l1, l2]
    \<and> (let s' = snd (complete_match (Some mid) (Some wids) now s);
            winnerAvg = (of_int (ranking (player_of s w1)) + of_int (ranking (player_of s w2))) / 2;
            loserAvg = (of_int (ranking (player_of s l1)) + of_int (ranking (player_of s l2))) / 2
        in (\<forall>p \<in> set (m_players (match_of s mid)).
              player_of s' p
                = finishPlayer (p \<in> set wids) (if p \<in> set wids then loserAvg else winnerAvg) now
                    (player_of s p)
            \<and> ranking (player_of s' p)
                = Math_round (fl (of_int (ranking (player_of s p))
                    + fl (32 * fl ((if p \<in> set wids then 1 else 0)
                        - expectedScore (if p \<in> set wids then loserAvg else winnerAvg)
                            (ranking (player_of s p))))))
            \<and> wins (player_of s' p) = wins (player_of s p) + (if p \<in> set wids then 1 else 0)
            \<and> losses (player_of s' p) = losses (player_of s p) + (if p \<in> set wids then 0 else 1)
            \<and> totalMatches (player_of s' p) = totalMatches (player_of s p) + 1
            \<and> lastMatchTime (player_of s' p) = Some now
            \<and> \<not> isInMatch (player_of s' p) \<and> \<not> isInQueue (player_of s' p))
         \<and> (\<forall>p. p \<notin> set (m_players (match_of s mid)) \<longrightarrow> player_of s' p = player_of s p))"
proof -
  let ?roster = "m_players (match_of s mid)"
  let ?W = "filter (\<lambda>p. p \<in> set wids) ?roster"
  let ?L = "filter (\<lambda>p. p \<notin> set wids) ?roster"
  let ?s' = "snd (complete_match (Some mid) (Some wids) now s)"
  note g = complete_match_ok [OF ok]
  obtain w1 w2 where W: "?W = [w1, w2]" using g length2E by blast
  obtain l1 l2 where L: "?L = [l1, l2]" using g length2E by blast
  have inW: "w1 \<in> set ?W" "w2 \<in> set ?W" and inL: "l1 \<in> set ?L" "l2 \<in> set ?L"
    unfolding W L by simp_all
  then have mem: "w1 \<in> set ?roster" "w2 \<in> set ?roster" "l1 \<in> set ?roster" "l2 \<in> set ?roster"
    by simp_all
  let ?wavg = "(of_int (ranking (player_of s w1)) + of_int (ranking (player_of s w2))) / 2 :: real"
  let ?lavg = "(of_int (ranking (player_of s l1)) + of_int (ranking (player_of s l2))) / 2 :: real"
  have avgW: "avgRanking (player_of s) ?W = ?wavg"
    unfolding W using mem rng by (intro avgRanking_pair) auto
  have avgL: "avgRanking (player_of s) ?L = ?lavg"
    unfolding L using mem rng by (intro avgRanking_pair) auto
  have dW: "distinct ?W" and dL: "distinct ?L" and disj: "set ?W \<inter> set ?L = {}"
    using dist by auto
  have heap: "player_of ?s' p =
    (if p \<in> set ?W then finishPlayer True ?lavg now (player_of s p)
     else if p \<in> set ?L then finishPlayer False ?wavg now (player_of s p)
     else player_of s p)" for p
    using g completeMatch_players [OF dW dL disj, of mid now s p] by (simp only: avgW avgL)
  have roster: "player_of ?s' p
      = finishPlayer (p \<in> set wids) (if p \<in> set wids then ?lavg else ?wavg) now (player_of s p)"
    if "p \<in> set ?roster" for p
    using that by (simp add: heap)
  have other: "player_of ?s' p = player_of s p" if "p \<notin> set ?roster" for p
    using that by (simp add: heap)
  have fields: "player_of ?s' p
                = finishPlayer (p \<in> set wids) (if p \<in> set wids then ?lavg else ?wavg) now
                    (player_of s p)
            \<and> ranking (player_of ?s' p)
                = Math_round (fl (of_int (ranking (player_of s p))
                    + fl (32 * fl ((if p \<in> set wids then 1 else 0)
                        - expectedScore (if p \<in> set wids then ?lavg else ?wavg)
                            (ranking (player_of s p))))))
            \<and> wins (player_of ?s' p) = wins (player_of s p) + (if p \<in> set wids then 1 else 0)
            \<and> losses (player_of ?s' p) = losses (player_of s p) + (if p \<in> set wids then 0 else 1)
            \<and> totalMatches (player_of ?s' p) = totalMatches (player_of s p) + 1
            \<and> lastMatchTime (player_of ?s' p) = Some now
            \<and> \<not> isInMatch (player_of ?s' p) \<and> \<not> isInQueue (player_of ?s' p)"
    if "p \<in> set ?roster" for p
    using notq that unfolding roster [OF that] finishPlayer_fields by simp
  show ?thesis
    using W L fields other unfolding Let_def by blast
qed

theorem complete_match_updates_witness:
  "fst (complete_match (Some ''m1'') (Some [''p1'', ''p2'']) 9000 court) = Inr ()
   \<and> distinct (m_players (match_of court ''m1''))
   \<and> list_all (\<lambda>p. \<bar>ranking (player_of court p)\<bar> < 2 ^ 52) (m_players (match_of court ''m1''))
   \<and> list_all (\<lambda>p. \<not> isInQueue (player_of court p)) (m_players (match_of court ''m1''))
   \<and> ranking (player_of (snd (complete_match (Some ''m1'') (Some [''p1'', ''p2'']) 9000 court)) ''p1'') = 1216
   \<and> wins (player_of (snd (complete_match (Some ''m1'') (Some [''p1'', ''p2'']) 9000 court)) ''p1'') = 1
   \<and> ranking (player_of (snd (complete_match (Some ''m1'') (Some [''p1'', ''p2'']) 9000 court)) ''p3'') = 1184
   \<and> losses (player_of (snd (complete_match (Some ''m1'') (Some [''p1'', ''p2'']) 9000 court)) ''p3'') = 1
   \<and> lastMatchTime (player_of (snd (complete_match (Some ''m1'') (Some [''p1'', ''p2'']) 9000 court)) ''p3'')
       = Some 9000
   \<and> \<not> isInMatch (player_of (snd (complete_match (Some ''m1'') (Some [''p1'', ''p2'']) 9000 court)) ''p3'')"
proof -
  have ok: "fst (complete_match (Some ''m1'') (Some [''p1'', ''p2'']) 9000 court) = Inr ()"
    by (simp add: complete_match_def court_facts Let_def)
  have d: "distinct (m_players (match_of court ''m1''))"
    by (simp add: court_facts)
  have r: "\<forall>p \<in> set (m_players (match_of court ''m1'')). \<bar>ranking (player_of court p)\<bar> < 2 ^ 52"
    by (simp add: court_facts court_players Player_new_def)
  have q: "\<forall>p \<in> set (m_players (match_of court ''m1'')). \<not> isInQueue (player_of court p)"
    by (simp add: court_facts court_players Player_new_def)
  show ?thesis
    using complete_match_updates [OF ok d r q] ok d r q
    by (clarsimp simp: list_all_iff court_facts court_players Player_new_def Let_def expectedScore_1200
        fl_numeral fl_neg_numeral fl_neg_one_half)
qed

text \<open>
  C4, amended.  The handler first rejects a request without a match id or without exactly two
  winner ids (\<open>OutcomeRequired\<close>, status 400), whether or not the match exists.  A request
  that passes this check fails with \<open>SessionNotFound\<close> when no active match has the id,
  and otherwise with \<open>InvalidOutcome\<close> when the winner ids do not select exactly two of the
  roster and leave exactly two; for a roster of distinct players that is whenever the roster
  has not four members, the two ids are equal, or one of them is not on the roster.  A failure
  leaves the state as it was.  After a successful resolution a second request for the same
  match with any two winner ids fails with \<open>SessionNotFound\<close>.
\<close>

theorem complete_match_failures:
  "((matchId = None \<or> matchId = Some [] \<or> winnerIds = None
       \<or> (\<exists>w. winnerIds = Some w \<and> length w \<noteq> 2))
      \<longrightarrow> complete_match matchId winnerIds now s = (Inl OutcomeRequired, s))
   \<and> (mid \<noteq> [] \<and> length wids = 2
        \<and> (mid \<notin> set (matches s) \<or> status (match_of s mid) \<noteq> Active)
      \<longrightarrow> complete_match (Some mid) (Some wids) now s = (Inl SessionNotFound, s))
   \<and> (mid \<noteq> [] \<and> length wids = 2
        \<and> mid \<in> set (matches s) \<and> status (match_of s mid) = Active
        \<and> (length (filter (\<lambda>p. p \<in> set wids) (m_players (match_of s mid))) \<noteq> 2
            \<or> length (filter (\<lambda>p. p \<notin> set wids) (m_players (match_of s mid))) \<noteq> 2)
      \<longrightarrow> complete_match (Some mid) (Some wids) now s = (Inl InvalidOutcome, s))
   \<and> (mid \<noteq> [] \<and> length wids = 2
        \<and> mid \<in> set (matches s) \<and> status (match_of s mid) = Active
        \<and> distinct (m_players (match_of s mid))
        \<and> \<not> (length (m_players (match_of s mid)) = 4 \<and> distinct wids
               \<and> set wids \<subseteq> set (m_players (match_of s mid)))
      \<longrightarrow> complete_match (Some mid) (Some wids) now s = (Inl InvalidOutcome, s))
   \<and> (\<forall>e. fst (complete_match matchId winnerIds now s) = Inl e
      \<longrightarrow> snd (complete_match matchId winnerIds now s) = s)
   \<and> (fst (complete_match (Some mid) (Some wids) now s) = Inr () \<and> length wids' = 2
      \<longrightarrow> complete_match (Some mid) (Some wids') now'
            (snd (complete_match (Some mid) (Some wids) now s))
          = (Inl SessionNotFound, snd (complete_match (Some mid) (Some wids) now s)))"
proof -
  have a: "complete_match matchId winnerIds now s = (Inl OutcomeRequired, s)"
    if "matchId = None \<or> matchId = Some [] \<or> winnerIds = None
       \<or> (\<exists>w. winnerIds = Some w \<and> length w \<noteq> 2)"
    using that by (auto simp: complete_match_def split: option.splits)
  have b: "complete_match (Some mid) (Some wids) now s = (Inl SessionNotFound, s)"
    if "mid \<noteq> []" "length wids = 2" "mid \<notin> set (matches s) \<or> status (match_of s mid) \<noteq> Active"
    using that by (auto simp: complete_match_def)
  have c: "complete_match (Some mid) (Some wids) now s = (Inl InvalidOutcome, s)"
    if "mid \<noteq> []" "length wids = 2" "mid \<in> set (matches s)" "status (match_of s mid) = Active"
      "length (filter (\<lambda>p. p \<in> set wids) (m_players (match_of s mid))) \<noteq> 2
       \<or> length (filter (\<lambda>p. p \<notin> set wids) (m_players (match_of s mid))) \<noteq> 2"
    using that by (auto simp: complete_match_def Let_def)
  have d: "complete_match (Some mid) (Some wids) now s = (Inl InvalidOutcome, s)"
    if h: "mid \<noteq> []" "length wids = 2" "mid \<in> set (matches s)" "status (match_of s mid) = Active"
      and r: "distinct (m_players (match_of s mid))"
      and n: "\<not> (length (m_players (match_of s mid)) = 4 \<and> distinct wids
               \<and> set wids \<subseteq> set (m_players (match_of s mid)))"
  proof -
    have "length (filter (\<lambda>p. p \<in> set wids) (m_players (match_of s mid))) \<noteq> 2
       \<or> length (filter (\<lambda>p. p \<notin> set wids) (m_players (match_of s mid))) \<noteq> 2"
      using filter_two_of_distinct [OF r h(2)] n
        filter_split_length [of "\<lambda>p. p \<in> set wids" "m_players (match_of s mid)"]
      by force
    then show ?thesis using c h by blast
  qed
  have e: "snd (complete_match matchId winnerIds now s) = s"
    if "fst (complete_match matchId winnerIds now s) = Inl e" for e
    using that
    by (auto simp: complete_match_def Let_def split: option.splits if_splits)
  have f: "complete_match (Some mid) (Some wids') now'
            (snd (complete_match (Some mid) (Some wids) now s))
          = (Inl SessionNotFound, snd (complete_match (Some mid) (Some wids) now s))"
    if ok: "fst (complete_match (Some mid) (Some wids) now s) = Inr ()" and l: "length wids' = 2"
  proof -
    let ?s' = "snd (complete_match (Some mid) (Some wids) now s)"
    from ok have m: "mid \<noteq> []"
      by (auto simp: complete_match_def Let_def split: if_splits)
    from ok have "status (match_of ?s' mid) = Completed"
      using completeMatch_status [of mid _ _ now s]
      by (auto simp: complete_match_def Let_def split: if_splits)
    then show ?thesis using m l by (simp add: complete_match_def)
  qed
  show ?thesis using a b c d e f by blast
qed

theorem complete_match_failures_witness:
  "complete_match None (Some [''p1'', ''p2'']) 9000 court = (Inl OutcomeRequired, court)
   \<and> complete_match (Some ''m1'') (Some [''p1'']) 9000 court = (Inl OutcomeRequired, court)
   \<and> ''m9'' \<notin> set (matches court)
   \<and> complete_match (Some ''m9'') (Some [''p1'', ''p2'']) 9000 court = (Inl SessionNotFound, court)
   \<and> ''m1'' \<in> set (matches court) \<and> status (match_of court ''m1'') = Active
   \<and> complete_match (Some ''m1'') (Some [''p1'', ''zz'']) 9000 court = (Inl InvalidOutcome, court)
   \<and> fst (complete_match (Some ''m1'') (Some [''p1'', ''p2'']) 9000 court) = Inr ()
   \<and> complete_match (Some ''m1'') (Some [''p1'', ''p2'']) 9500
        (snd (complete_match (Some ''m1'') (Some [''p1'', ''p2'']) 9000 court))
       = (Inl SessionNotFound, snd (complete_match (Some ''m1'') (Some [''p1'', ''p2'']) 9000 court))"
proof -
  have ok: "fst (complete_match (Some ''m1'') (Some [''p1'', ''p2'']) 9000 court) = Inr ()"
    by (simp add: complete_match_def court_facts Let_def)
  show ?thesis
    using complete_match_failures [of None "Some [''p1'', ''p2'']" 9000 court "''m9''" "[''p1'', ''p2'']" "[]" 0]
      complete_match_failures [of "Some ''m1''" "Some [''p1'']" 9000 court "''m1''" "[''p1'', ''zz'']" "[]" 0]
      complete_match_failures [of None None 9000 court "''m1''" "[''p1'', ''p2'']" "[''p1'', ''p2'']" 9500]
      ok
    by (simp add: court_facts)
qed

text \<open>
  The claim C4 as stated fails: for an id that no match has and an empty list of winners the
  handler does not answer \<open>SessionNotFound\<close>.
\<close>

theorem complete_match_unknown_id_not_SessionNotFound:
  "''m1'' \<notin> set (matches init)
   \<and> fst (complete_match (Some ''m1'') (Some []) 0 init) \<noteq> Inl SessionNotFound"
  by (simp add: complete_match_def init_def)

section \<open>The states that can be reached are well formed\<close>

lemma wf_init: "wf init"
  by (simp add: wf_def wf_queue_def wf_matches_def wf_flags_def activeRoster_def init_def Player_new_def)

lemma addPlayer_effect:
  assumes "\<not> isInQueue (player_of s pid)" "\<not> isInMatch (player_of s pid)"
  shows "mset (map player (badmintonQueue (snd (addPlayer pid now s))))
           = mset (pid # map player (badmintonQueue s))"
    and "isInQueue (player_of (snd (addPlayer pid now s)) p) \<longleftrightarrow> p = pid \<or> isInQueue (player_of s p)"
    and "isInMatch (player_of (snd (addPlayer pid now s)) p) = isInMatch (player_of s p)"
    and "matches (snd (addPlayer pid now s)) = matches s"
    and "match_of (snd (addPlayer pid now s)) = match_of s"
    and "players (snd (addPlayer pid now s)) = players s"
proof -
  let ?e = "\<lparr>player = pid, joinTime = now,
       weight = queueWeight (calculateQueueWeight now ((player_of s pid)\<lparr>isInQueue := True\<rparr>))\<rparr>"
  have "mset (badmintonQueue (snd (addPlayer pid now s))) = add_mset ?e (mset (badmintonQueue s))"
    using assms by (simp add: addPlayer_queue sort_js_mset)
  then have "image_mset player (mset (badmintonQueue (snd (addPlayer pid now s))))
      = image_mset player (add_mset ?e (mset (badmintonQueue s)))" by simp
  then show "mset (map player (badmintonQueue (snd (addPlayer pid now s))))
           = mset (pid # map player (badmintonQueue s))" by simp
qed (use assms in \<open>simp_all add: addPlayer_def addPlayer_with_def Let_def calculateQueueWeight_def\<close>)

lemma addPlayer_static:
  "matches (snd (addPlayer pid now s)) = matches s"
  "match_of (snd (addPlayer pid now s)) = match_of s"
  "activeMatches (snd (addPlayer pid now s)) = activeMatches s"
  "completedMatches (snd (addPlayer pid now s)) = completedMatches s"
  by (auto simp: addPlayer_def addPlayer_with_def Let_def)

lemma activeRoster_addPlayer [simp]:
  "activeRoster (snd (addPlayer pid now s)) m = activeRoster s m"
  by (simp add: activeRoster_def addPlayer_static)

lemma wf_addPlayer:
  assumes "wf s" "pid \<in> set (players s)"
  shows "wf (snd (addPlayer pid now s))"
proof (cases "isInQueue (player_of s pid) \<or> isInMatch (player_of s pid)")
  case True
  then show ?thesis using assms by (simp add: addPlayer_def addPlayer_with_def)
next
  case False
  then have idle: "\<not> isInQueue (player_of s pid)" "\<not> isInMatch (player_of s pid)" by simp_all
  note e = addPlayer_effect [OF idle, of now]
  let ?s' = "snd (addPlayer pid now s)"
  have q: "wf_queue s" and m: "wf_matches s" and f: "wf_flags s" using assms(1) by (simp_all add: wf_def)
  have notin: "pid \<notin> player ` set (badmintonQueue s)" using q idle by (simp add: wf_queue_def)
  have set': "player ` set (badmintonQueue ?s') = insert pid (player ` set (badmintonQueue s))"
    using mset_eq_setD [OF e(1)] by simp
  have d': "distinct (map player (badmintonQueue ?s'))"
    using mset_eq_imp_distinct_iff [OF e(1)] q notin
    by (simp add: wf_queue_def)
  have "wf_queue ?s'"
    using q d' set' assms(2) e(2) e(6) unfolding wf_queue_def by auto
  moreover have "wf_matches ?s'"
    using m e(4) e(5) e(6) unfolding wf_matches_def by simp
  moreover have "wf_flags ?s'"
    using f e(2) e(3) idle unfolding wf_flags_def by auto
  ultimately show ?thesis by (simp add: wf_def)
qed

lemma wf_removePlayer:
  assumes "wf s"
  shows "wf (snd (removePlayer pid s))"
proof -
  have q: "wf_queue s" and m: "wf_matches s" and f: "wf_flags s" using assms by (simp_all add: wf_def)
  from removePlayer_cases [of s pid] show ?thesis
  proof (elim disjE exE conjE)
    assume "removePlayer pid s = (Inl NotQueued, s)"
    then show ?thesis using assms by simp
  next
    fix ys e zs
    assume d: "badmintonQueue s = ys @ e # zs" and e: "player e = pid"
      and r: "removePlayer pid s
              = (Inr pid, s\<lparr>badmintonQueue := ys @ zs,
                   player_of := (player_of s)(pid := (player_of s pid)\<lparr>isInQueue := False\<rparr>)\<rparr>)"
    let ?s' = "s\<lparr>badmintonQueue := ys @ zs,
                   player_of := (player_of s)(pid := (player_of s pid)\<lparr>isInQueue := False\<rparr>)\<rparr>"
    have dist: "distinct (map player (ys @ e # zs))" using q d by (simp add: wf_queue_def)
    then have notin: "pid \<notin> player ` set (ys @ zs)" using e by auto
    have ar: "activeRoster ?s' k = activeRoster s k" for k by (simp add: activeRoster_def)
    have "wf_queue ?s'"
      using q dist notin e unfolding wf_queue_def d by auto
    moreover have "wf_matches ?s'"
      using m unfolding wf_matches_def ar by simp
    moreover have "wf_flags ?s'"
      using f unfolding wf_flags_def ar by auto
    ultimately show ?thesis by (simp add: wf_def r)
  qed
qed

lemma foldl_take_flags:
  "foldl (\<lambda>h q. h(player q := (h (player q))\<lparr>isInQueue := False, isInMatch := True\<rparr>)) h0 qs r
     = (if r \<in> player ` set qs then (h0 r)\<lparr>isInQueue := False, isInMatch := True\<rparr> else h0 r)"
  for h0 :: "string \<Rightarrow> Player" and qs :: "queueItem list"
  by (induction qs arbitrary: h0) auto

lemma createMatch_effect:
  assumes "4 \<le> length (badmintonQueue s)" "uuid \<notin> set (matches s)"
  shows "badmintonQueue (snd (createMatch uuid now s)) = drop 4 (badmintonQueue s)"
    and "player_of (snd (createMatch uuid now s)) p
          = (if p \<in> player ` set (take 4 (badmintonQueue s))
             then (player_of s p)\<lparr>isInQueue := False, isInMatch := True\<rparr> else player_of s p)"
    and "match_of (snd (createMatch uuid now s))
          = (match_of s)(uuid := BadmintonMatch_new (map player (take 4 (badmintonQueue s))) now)"
    and "matches (snd (createMatch uuid now s)) = matches s @ [uuid]"
    and "players (snd (createMatch uuid now s)) = players s"
  using assms by (simp_all add: createMatch_def Let_def foldl_take_flags)

lemma wf_createMatch:
  assumes "wf s" "uuid \<notin> set (matches s)"
  shows "wf (snd (createMatch uuid now s))"
proof (cases "length (badmintonQueue s) < 4")
  case True
  then show ?thesis using assms by (simp add: createMatch_def)
next
  case False
  then have len: "4 \<le> length (badmintonQueue s)" by simp
  note e = createMatch_effect [OF len assms(2), of now]
  let ?s' = "snd (createMatch uuid now s)"
  let ?Q = "badmintonQueue s"
  let ?T = "player ` set (take 4 ?Q)"
  have q: "wf_queue s" and m: "wf_matches s" and f: "wf_flags s" using assms(1) by (simp_all add: wf_def)
  have dist: "distinct (map player ?Q)" using q by (simp add: wf_queue_def)
  have split: "map player ?Q = map player (take 4 ?Q) @ map player (drop 4 ?Q)"
    by (metis append_take_drop_id map_append)
  have dT: "distinct (map player (take 4 ?Q))" and dD: "distinct (map player (drop 4 ?Q))"
    and disj: "?T \<inter> player ` set (drop 4 ?Q) = {}"
    using dist unfolding split by auto
  have un: "player ` set ?Q = ?T \<union> player ` set (drop 4 ?Q)"
    by (metis append_take_drop_id image_Un set_append)
  have Tq: "\<And>p. p \<in> ?T \<Longrightarrow> isInQueue (player_of s p)"
    using q un unfolding wf_queue_def by blast
  then have Tm: "\<And>p. p \<in> ?T \<Longrightarrow> \<not> isInMatch (player_of s p)"
    using f unfolding wf_flags_def by blast
  have Tr: "\<And>p k. p \<in> ?T \<Longrightarrow> p \<notin> activeRoster s k"
    using Tm f unfolding wf_flags_def by blast
  have old: "activeRoster s uuid = {}" using assms(2) by (simp add: activeRoster_def)
  have ar: "activeRoster ?s' k = (if k = uuid then ?T else activeRoster s k)" for k
    using assms(2) by (auto simp: activeRoster_def e BadmintonMatch_new_def)
  have l4: "length (map player (take 4 ?Q)) = 4" using len by simp
  have sub: "?T \<subseteq> set (players s)"
    using q un unfolding wf_queue_def by blast
  have "wf_queue ?s'"
    unfolding wf_queue_def e using q dD disj un unfolding wf_queue_def by auto
  moreover have "wf_matches ?s'"
    unfolding wf_matches_def ar
    using m dT l4 sub Tr assms(2) unfolding wf_matches_def
    by (auto simp: e BadmintonMatch_new_def)
  moreover have "wf_flags ?s'"
  proof -
    have a: "isInMatch (player_of ?s' p) \<longleftrightarrow> (\<exists>k. p \<in> activeRoster ?s' k)" for p
    proof (cases "p \<in> ?T")
      case True
      then show ?thesis unfolding ar by (auto simp: e)
    next
      case False
      have "(\<exists>k. p \<in> activeRoster s k) \<longleftrightarrow> (\<exists>k. k \<noteq> uuid \<and> p \<in> activeRoster s k)"
        using old by auto
      then show ?thesis using False f unfolding ar wf_flags_def by (auto simp: e)
    qed
    have b: "\<not> (isInQueue (player_of ?s' p) \<and> isInMatch (player_of ?s' p))" for p
      using f unfolding wf_flags_def by (auto simp: e)
    show ?thesis unfolding wf_flags_def using a b by blast
  qed
  ultimately show ?thesis by (simp add: wf_def)
qed

lemma complete_match_static:
  assumes "fst (complete_match (Some mid) (Some wids) now s) = Inr ()"
  shows "matches (snd (complete_match (Some mid) (Some wids) now s)) = matches s"
    and "players (snd (complete_match (Some mid) (Some wids) now s)) = players s"
    and "badmintonQueue (snd (complete_match (Some mid) (Some wids) now s)) = badmintonQueue s"
    and "match_of (snd (complete_match (Some mid) (Some wids) now s))
          = (match_of s)(mid := (match_of s mid)\<lparr>endTime := Some now,
               result := Some (filter (\<lambda>p. p \<in> set wids) (m_players (match_of s mid)),
                               filter (\<lambda>p. p \<notin> set wids) (m_players (match_of s mid))),
               status := Completed\<rparr>)"
  using assms by (auto simp: complete_match_def completeMatch_def Let_def split: if_splits)

lemma complete_match_unchanged_on_failure:
  "fst (complete_match matchId winnerIds now s) \<noteq> Inr () \<Longrightarrow> snd (complete_match matchId winnerIds now s) = s"
  by (auto simp: complete_match_def Let_def split: option.splits if_splits)

lemma wf_complete_match:
  assumes "wf s"
  shows "wf (snd (complete_match matchId winnerIds now s))"
proof (cases "fst (complete_match matchId winnerIds now s) = Inr ()")
  case False
  then show ?thesis using assms complete_match_unchanged_on_failure by simp
next
  case True
  then obtain mid wids where mw: "matchId = Some mid" "winnerIds = Some wids"
    by (auto simp: complete_match_def split: option.splits)
  note ok = True [unfolded mw]
  note g = complete_match_ok [OF ok]
  note st = complete_match_static [OF ok]
  let ?s' = "snd (complete_match (Some mid) (Some wids) now s)"
  let ?R = "m_players (match_of s mid)"
  let ?W = "filter (\<lambda>p. p \<in> set wids) ?R"
  let ?L = "filter (\<lambda>p. p \<notin> set wids) ?R"
  have q: "wf_queue s" and m: "wf_matches s" and f: "wf_flags s" using assms by (simp_all add: wf_def)
  have act: "mid \<in> set (matches s)" "status (match_of s mid) = Active" using g by simp_all
  have dR: "distinct ?R" using m act unfolding wf_matches_def by blast
  have dW: "distinct ?W" and dL: "distinct ?L" and disj: "set ?W \<inter> set ?L = {}"
    using dR by auto
  have heap: "player_of ?s' p =
    (if p \<in> set ?W then finishPlayer True (avgRanking (player_of s) ?L) now (player_of s p)
     else if p \<in> set ?L then finishPlayer False (avgRanking (player_of s) ?W) now (player_of s p)
     else player_of s p)" for p
    using g completeMatch_players [OF dW dL disj, of mid now s p] by simp
  have WL: "set ?W \<union> set ?L = set ?R" by auto
  have inQ: "isInQueue (player_of ?s' p) = isInQueue (player_of s p)" for p
    by (simp add: heap finishPlayer_fields)
  have inM: "isInMatch (player_of ?s' p) \<longleftrightarrow> p \<notin> set ?R \<and> isInMatch (player_of s p)" for p
    using WL by (auto simp: heap finishPlayer_fields)
  have arR: "activeRoster s mid = set ?R" using act by (simp add: activeRoster_def)
  have ar: "activeRoster ?s' k = (if k = mid then {} else activeRoster s k)" for k
    by (simp add: activeRoster_def st)
  have other: "p \<notin> set ?R" if "p \<in> activeRoster s k" "k \<noteq> mid" for p k
    using that m arR unfolding wf_matches_def by blast
  have "wf_queue ?s'"
    using q unfolding wf_queue_def by (simp add: st inQ)
  moreover have "wf_matches ?s'"
    unfolding wf_matches_def ar using m unfolding wf_matches_def by (auto simp: st)
  moreover have "wf_flags ?s'"
  proof -
    have a: "isInMatch (player_of ?s' p) \<longleftrightarrow> (\<exists>k. p \<in> activeRoster ?s' k)" for p
    proof
      assume "isInMatch (player_of ?s' p)"
      then have n: "p \<notin> set ?R" and "isInMatch (player_of s p)" using inM by simp_all
      then obtain k where k: "p \<in> activeRoster s k" using f unfolding wf_flags_def by blast
      then have "k \<noteq> mid" using n arR by auto
      then show "\<exists>k. p \<in> activeRoster ?s' k" using k unfolding ar by auto
    next
      assume "\<exists>k. p \<in> activeRoster ?s' k"
      then obtain k where k: "k \<noteq> mid" "p \<in> activeRoster s k" unfolding ar by (auto split: if_splits)
      then have "p \<notin> set ?R" using other by blast
      moreover have "isInMatch (player_of s p)" using k f unfolding wf_flags_def by blast
      ultimately show "isInMatch (player_of ?s' p)" using inM by simp
    qed
    have b: "\<not> (isInQueue (player_of ?s' p) \<and> isInMatch (player_of ?s' p))" for p
      using f inQ inM unfolding wf_flags_def by auto
    show ?thesis unfolding wf_flags_def using a b by blast
  qed
  ultimately show ?thesis by (simp add: wf_def mw)
qed

lemma wf_findOrCreatePlayer:
  assumes "wf s" "uuid \<notin> set (players s)"
  shows "wf (snd (findOrCreatePlayer n uuid s))
    \<and> fst (findOrCreatePlayer n uuid s) \<in> set (players (snd (findOrCreatePlayer n uuid s)))"
proof (cases "find (\<lambda>k. name (player_of s k) = n) (players s)")
  case (Some k)
  then have "k \<in> set (players s)" by (auto simp: find_Some_iff)
  then show ?thesis using Some assms by (simp add: findOrCreatePlayer_def)
next
  case None
  let ?s' = "s\<lparr>player_of := (player_of s)(uuid := Player_new n), players := players s @ [uuid]\<rparr>"
  have F: "findOrCreatePlayer n uuid s = (uuid, ?s')"
    using None assms(2) by (simp add: findOrCreatePlayer_def)
  have q: "wf_queue s" and m: "wf_matches s" and f: "wf_flags s" using assms(1) by (simp_all add: wf_def)
  have nq: "\<not> isInQueue (player_of s uuid)"
    using q assms(2) unfolding wf_queue_def by blast
  have nr: "uuid \<notin> activeRoster s k" for k
    using m assms(2) unfolding wf_matches_def activeRoster_def by (auto split: if_splits)
  then have nm: "\<not> isInMatch (player_of s uuid)"
    using f unfolding wf_flags_def by blast
  have fq: "isInQueue (player_of ?s' p) = isInQueue (player_of s p)"
    and fm: "isInMatch (player_of ?s' p) = isInMatch (player_of s p)" for p
    using nq nm by (simp_all add: Player_new_def)
  have ar: "activeRoster ?s' k = activeRoster s k" for k by (simp add: activeRoster_def)
  have "wf_queue ?s'"
    using q unfolding wf_queue_def by (simp only: fq) auto
  moreover have "wf_matches ?s'"
    unfolding wf_matches_def ar using m unfolding wf_matches_def by auto
  moreover have "wf_flags ?s'"
    unfolding wf_flags_def ar fq fm using f unfolding wf_flags_def by blast
  ultimately show ?thesis by (simp add: wf_def F)
qed

lemma wf_join:
  assumes "wf s" "uuid \<notin> set (players s)"
  shows "wf (snd (join playerName uuid now s))"
proof (cases "\<exists>n. playerName = Some n \<and> trim n \<noteq> []")
  case True
  then obtain n where n: "playerName = Some n" "trim n \<noteq> []" by blast
  show ?thesis
    unfolding n(1) join_unfold [OF n(2)] using wf_findOrCreatePlayer [OF assms, of "trim n"]
    by (simp add: wf_addPlayer)
next
  case False
  then have "snd (join playerName uuid now s) = s"
    by (auto simp: join_def split: option.splits)
  then show ?thesis using assms by simp
qed

text \<open>
  Every state that the handlers reach is well formed.  In particular the roster of an active
  match consists of four distinct players, each flagged as in a match and not as queued.
\<close>

lemma reachable_wf: "reachable s \<Longrightarrow> wf s"
  by (induction rule: reachable.induct)
    (simp_all add: wf_init wf_join wf_removePlayer wf_createMatch wf_complete_match)

lemma wf_active_roster:
  assumes "wf s" "mid \<in> set (matches s)" "status (match_of s mid) = Active"
  shows "distinct (m_players (match_of s mid)) \<and> length (m_players (match_of s mid)) = 4
    \<and> (\<forall>p \<in> set (m_players (match_of s mid)).
          isInMatch (player_of s p) \<and> \<not> isInQueue (player_of s p))"
proof -
  have m: "wf_matches s" and f: "wf_flags s" using assms(1) by (simp_all add: wf_def)
  have "p \<in> activeRoster s mid" if "p \<in> set (m_players (match_of s mid))" for p
    using that assms(2,3) by (simp add: activeRoster_def)
  then have "isInMatch (player_of s p) \<and> \<not> isInQueue (player_of s p)"
    if "p \<in> set (m_players (match_of s mid))" for p
    using that f unfolding wf_flags_def by blast
  then show ?thesis using m assms(2,3) unfolding wf_matches_def by blast
qed

lemma reachable_roster:
  assumes "reachable s" "mid \<in> set (matches s)" "status (match_of s mid) = Active"
  shows "distinct (m_players (match_of s mid)) \<and> length (m_players (match_of s mid)) = 4
    \<and> (\<forall>p \<in> set (m_players (match_of s mid)).
          isInMatch (player_of s p) \<and> \<not> isInQueue (player_of s p))"
  using wf_active_roster [OF reachable_wf [OF assms(1)] assms(2,3)] .

text \<open>
  The example states can be reached; so can the state in which the queue is out of order.
\<close>

lemmas run_join = join_def trim_def isWhiteSpace_def findOrCreatePlayer_def init_def addPlayer_def addPlayer_with_def
  Let_def Player_new_def calculateQueueWeight_fresh sort_js_def compare_same_weight

lemma reachable_lobby: "reachable lobby"
proof -
  let ?s1 = "snd (join (Some ''Ann'') ''p1'' 1000 init)"
  let ?s2 = "snd (join (Some ''Bob'') ''p2'' 2000 ?s1)"
  let ?s3 = "snd (join (Some ''Cyd'') ''p3'' 3000 ?s2)"
  let ?s4 = "snd (join (Some ''Dee'') ''p4'' 4000 ?s3)"
  have 1: "reachable ?s1"
    by (rule reachable.joined [OF reachable.start]) (simp add: init_def)
  have 2: "reachable ?s2"
    by (rule reachable.joined [OF 1]) (simp add: run_join)
  have 3: "reachable ?s3"
    by (rule reachable.joined [OF 2]) (simp add: run_join)
  have "reachable ?s4"
    by (rule reachable.joined [OF 3]) (simp add: run_join)
  then show ?thesis by (simp only: lobby_reached)
qed

lemma reachable_court: "reachable court"
  unfolding court_def by (rule reachable.formed [OF reachable_lobby]) (simp add: lobby_def)

lemma reachable_rested: "reachable rested"
  using reachable.resolved [OF reachable_court, of "Some ''m1''" "Some [''p1'', ''p2'']" 9000]
  by (simp only: rested_reached)

lemma reachable_three_admits: "reachable three_admits"
proof -
  let ?s1 = "snd (join (Some ''Cyd'') ''p5'' 2241000 rested)"
  let ?s2 = "snd (join (Some ''Bob'') ''p6'' 2259000 ?s1)"
  have pl: "players rested = [''p1'', ''p2'', ''p3'', ''p4'']" by (simp add: rested_def)
  have e1: "?s1 = snd (addPlayer ''p3'' 2241000 rested)"
    by (subst join_known [where k = "''p3''"]) (simp_all add: trim_names rested_def)
  have e2: "?s2 = snd (addPlayer ''p2'' 2259000 ?s1)"
    unfolding e1 by (subst join_known [where k = "''p2''"]) (simp_all add: trim_names addPlayer_keeps rested_def)
  have 1: "reachable ?s1"
    by (rule reachable.joined [OF reachable_rested]) (simp add: pl)
  have 2: "reachable ?s2"
    by (rule reachable.joined [OF 1]) (simp add: e1 addPlayer_keeps pl)
  have "reachable (snd (join (Some ''Ann'') ''p7'' 2277000 ?s2))"
    by (rule reachable.joined [OF 2], subst e2, subst e1) (simp add: addPlayer_keeps pl)
  then show ?thesis by (simp only: three_admits_def)
qed

lemma reachable_waiting: "reachable waiting"
proof -
  let ?s1 = "snd (join (Some ''Dee'') ''p5'' 1809000 rested)"
  have pl: "players rested = [''p1'', ''p2'', ''p3'', ''p4'']" by (simp add: rested_def)
  have e1: "?s1 = snd (addPlayer ''p4'' 1809000 rested)"
    by (subst join_known [where k = "''p4''"]) (simp_all add: trim_Dee rested_def)
  have 1: "reachable ?s1"
    by (rule reachable.joined [OF reachable_rested]) (simp add: pl)
  have "reachable (snd (join (Some ''Cyd'') ''p6'' 3609000 ?s1))"
    by (rule reachable.joined [OF 1]) (simp add: e1 addPlayer_keeps pl)
  then show ?thesis by (simp only: waiting_def)
qed

text \<open>
  In a state that can be reached, a player who is not flagged as queued has no entry in the
  queue.
\<close>

lemma reachable_no_entry:
  assumes "reachable s" "\<not> isInQueue (player_of s pid)"
  shows "\<forall>q \<in> set (badmintonQueue s). player q \<noteq> pid"
proof -
  have "wf_queue s" using reachable_wf [OF assms(1)] by (simp add: wf_def)
  then have "pid \<notin> player ` set (badmintonQueue s)"
    using assms(2) unfolding wf_queue_def by blast
  then show ?thesis by blast
qed

end
